theory Spec2Isabelle
  imports Complex_Main "HOL-Library.Word"
begin

unbundle bit_operations_syntax

section \<open>The light switch (sample/light.c)\<close>

text \<open>
  The file holds one global, \<^verbatim>\<open>int lit = 0;\<close>, and three exported functions.
  The global is the whole state: a record with one field, a 32-bit integer.
  \<^verbatim>\<open>turn_on\<close> and \<^verbatim>\<open>turn_off\<close> return the new state; \<^verbatim>\<open>is_lit\<close>
  returns its result together with the state it leaves behind.
\<close>

record light =
  lit :: "32 word"

definition light_init :: light where
  "light_init = \<lparr>lit = 0\<rparr>"

definition turn_on :: "light \<Rightarrow> light" where
  "turn_on s = s\<lparr>lit := 1\<rparr>"

definition turn_off :: "light \<Rightarrow> light" where
  "turn_off s = s\<lparr>lit := 0\<rparr>"

definition is_lit :: "light \<Rightarrow> 32 word \<times> light" where
  "is_lit s = (lit s, s)"

text \<open>A host drives the module by a sequence of calls to the three entry points.\<close>

datatype light_call = Turn_on | Turn_off | Is_lit

fun light_step :: "light_call \<Rightarrow> light \<Rightarrow> light" where
  "light_step Turn_on s = turn_on s"
| "light_step Turn_off s = turn_off s"
| "light_step Is_lit s = snd (is_lit s)"

fun light_run :: "light_call list \<Rightarrow> light \<Rightarrow> light" where
  "light_run [] s = s"
| "light_run (c # cs) s = light_run cs (light_step c s)"

text \<open>The most recent call of a sequence that writes \<^verbatim>\<open>lit\<close>, if there is one.\<close>

fun changes_light :: "light_call \<Rightarrow> bool" where
  "changes_light Turn_on = True"
| "changes_light Turn_off = True"
| "changes_light Is_lit = False"

fun last_change :: "light_call list \<Rightarrow> light_call option" where
  "last_change [] = None"
| "last_change (c # cs) =
     (case last_change cs of
        Some d \<Rightarrow> Some d
      | None \<Rightarrow> (if changes_light c then Some c else None))"

section \<open>IEEE 754 binary floating point\<close>

text \<open>
  \<^verbatim>\<open>mandelbrot.c\<close> computes on \<^verbatim>\<open>double\<close> and \<^verbatim>\<open>memory.c\<close> on
  \<^verbatim>\<open>float\<close> and \<^verbatim>\<open>double\<close>. The target evaluates every operation in the
  operand's own format, rounding to nearest with ties to even, and fuses no multiplication
  with an addition. A floating-point number is modelled as its bit pattern; the operations
  are written once for a format with \<open>ew\<close> exponent bits and \<open>fw\<close> fraction bits and
  work on the pattern read as a natural number.

  A pattern unpacks to a NaN, an infinity with its sign, or a finite number
  \<open>(-1) ^ s * m * 2 ^ q\<close> given by sign, integer significand and exponent
  (\<open>True\<close> is the negative sign).
\<close>

datatype fp_class = FP_NaN | FP_Inf bool | FP_Fin bool nat int

definition fp_bias :: "nat \<Rightarrow> nat" where
  "fp_bias ew = 2 ^ (ew - 1) - 1"

text \<open>The exponent of the last bit of a subnormal number: the smallest quantum.\<close>

definition fp_qmin :: "nat \<Rightarrow> nat \<Rightarrow> int" where
  "fp_qmin ew fw = 1 - int (fp_bias ew) - int fw"

definition fp_unpack :: "nat \<Rightarrow> nat \<Rightarrow> nat \<Rightarrow> fp_class" where
  "fp_unpack ew fw w =
     (let s = ((w div 2 ^ (ew + fw)) mod 2 = 1);
          e = (w div 2 ^ fw) mod 2 ^ ew;
          f = w mod 2 ^ fw
      in if e = 2 ^ ew - 1 then (if f = 0 then FP_Inf s else FP_NaN)
         else if e = 0 then FP_Fin s f (fp_qmin ew fw)
         else FP_Fin s (2 ^ fw + f) (int e - int (fp_bias ew) - int fw))"

definition fp_pack :: "nat \<Rightarrow> nat \<Rightarrow> bool \<Rightarrow> nat \<Rightarrow> nat \<Rightarrow> nat" where
  "fp_pack ew fw s e f = (if s then 2 ^ (ew + fw) else 0) + e * 2 ^ fw + f"

text \<open>
  The result of an invalid operation, and of any operation on a NaN, is the quiet NaN with
  a positive sign and an empty payload. (C leaves sign and payload of a NaN result open;
  nothing below depends on them.)
\<close>

definition fp_nan :: "nat \<Rightarrow> nat \<Rightarrow> nat" where
  "fp_nan ew fw = fp_pack ew fw False (2 ^ ew - 1) (2 ^ (fw - 1))"

definition fp_inf :: "nat \<Rightarrow> nat \<Rightarrow> bool \<Rightarrow> nat" where
  "fp_inf ew fw s = fp_pack ew fw s (2 ^ ew - 1) 0"

definition fp_zero :: "nat \<Rightarrow> nat \<Rightarrow> bool \<Rightarrow> nat" where
  "fp_zero ew fw s = fp_pack ew fw s 0 0"

text \<open>The number of binary digits of a natural number.\<close>

fun bitlen :: "nat \<Rightarrow> nat" where
  "bitlen n = (if n = 0 then 0 else Suc (bitlen (n div 2)))"

declare bitlen.simps [simp del]

text \<open>\<open>m / 2 ^ k\<close> rounded to the nearest integer, a tie to the even one.\<close>

definition rne :: "nat \<Rightarrow> nat \<Rightarrow> nat" where
  "rne m k =
     (let d = m div 2 ^ k; r = m mod 2 ^ k; h = 2 ^ (k - 1)
      in if h < r then d + 1
         else if r = h \<and> d mod 2 = 1 then d + 1
         else d)"

text \<open>
  Rounding the exact value \<open>(-1) ^ s * m * 2 ^ q\<close> into the format. The quantum
  \<open>qt\<close> of the result leaves \<open>fw + 1\<close> significant bits, or is the smallest quantum
  for a subnormal result; a significand that rounds up to \<open>2 ^ (fw + 1)\<close> moves to the
  next exponent; an exponent beyond the largest finite one gives the infinity.
\<close>

definition fp_round :: "nat \<Rightarrow> nat \<Rightarrow> bool \<Rightarrow> nat \<Rightarrow> int \<Rightarrow> nat" where
  "fp_round ew fw s m q =
     (if m = 0 then fp_zero ew fw s
      else
        let E = int (bitlen m) - 1 + q;
            qt = max (E - int fw) (fp_qmin ew fw);
            t = (if qt \<le> q then m * 2 ^ nat (q - qt) else rne m (nat (qt - q)));
            qt' = (if t = 2 ^ (fw + 1) then qt + 1 else qt);
            t' = (if t = 2 ^ (fw + 1) then 2 ^ fw else t);
            e = (if t' < 2 ^ fw then 0 else nat (qt' + int (fp_bias ew) + int fw))
        in if 2 ^ ew - 1 \<le> e then fp_inf ew fw s
           else fp_pack ew fw s e (t' mod 2 ^ fw))"

text \<open>The finite number \<open>(-1) ^ s * m * 2 ^ q\<close> as an integer multiple of \<open>2 ^ q0\<close>,
  for \<open>q0 \<le> q\<close>.\<close>

definition fp_int :: "bool \<Rightarrow> nat \<Rightarrow> int \<Rightarrow> int \<Rightarrow> int" where
  "fp_int s m q q0 =
     (if s then - (int m * 2 ^ nat (q - q0)) else int m * 2 ^ nat (q - q0))"

definition fp_add :: "nat \<Rightarrow> nat \<Rightarrow> nat \<Rightarrow> nat \<Rightarrow> nat" where
  "fp_add ew fw a b =
     (case fp_unpack ew fw a of
        FP_NaN \<Rightarrow> fp_nan ew fw
      | FP_Inf s1 \<Rightarrow>
          (case fp_unpack ew fw b of
             FP_NaN \<Rightarrow> fp_nan ew fw
           | FP_Inf s2 \<Rightarrow> (if s1 = s2 then fp_inf ew fw s1 else fp_nan ew fw)
           | FP_Fin s2 m2 q2 \<Rightarrow> fp_inf ew fw s1)
      | FP_Fin s1 m1 q1 \<Rightarrow>
          (case fp_unpack ew fw b of
             FP_NaN \<Rightarrow> fp_nan ew fw
           | FP_Inf s2 \<Rightarrow> fp_inf ew fw s2
           | FP_Fin s2 m2 q2 \<Rightarrow>
               (let q = min q1 q2;
                    x = fp_int s1 m1 q1 q + fp_int s2 m2 q2 q
                in if x = 0 then fp_zero ew fw (s1 \<and> s2)
                   else fp_round ew fw (x < 0) (nat \<bar>x\<bar>) q)))"

definition fp_neg :: "nat \<Rightarrow> nat \<Rightarrow> nat \<Rightarrow> nat" where
  "fp_neg ew fw a =
     (if (a div 2 ^ (ew + fw)) mod 2 = 1 then a - 2 ^ (ew + fw) else a + 2 ^ (ew + fw))"

definition fp_sub :: "nat \<Rightarrow> nat \<Rightarrow> nat \<Rightarrow> nat \<Rightarrow> nat" where
  "fp_sub ew fw a b = fp_add ew fw a (fp_neg ew fw b)"

definition fp_mul :: "nat \<Rightarrow> nat \<Rightarrow> nat \<Rightarrow> nat \<Rightarrow> nat" where
  "fp_mul ew fw a b =
     (case fp_unpack ew fw a of
        FP_NaN \<Rightarrow> fp_nan ew fw
      | FP_Inf s1 \<Rightarrow>
          (case fp_unpack ew fw b of
             FP_NaN \<Rightarrow> fp_nan ew fw
           | FP_Inf s2 \<Rightarrow> fp_inf ew fw (s1 \<noteq> s2)
           | FP_Fin s2 m2 q2 \<Rightarrow>
               (if m2 = 0 then fp_nan ew fw else fp_inf ew fw (s1 \<noteq> s2)))
      | FP_Fin s1 m1 q1 \<Rightarrow>
          (case fp_unpack ew fw b of
             FP_NaN \<Rightarrow> fp_nan ew fw
           | FP_Inf s2 \<Rightarrow>
               (if m1 = 0 then fp_nan ew fw else fp_inf ew fw (s1 \<noteq> s2))
           | FP_Fin s2 m2 q2 \<Rightarrow> fp_round ew fw (s1 \<noteq> s2) (m1 * m2) (q1 + q2)))"

text \<open>The comparison \<^verbatim>\<open><\<close>: false when either operand is a NaN.\<close>

definition fp_lt :: "nat \<Rightarrow> nat \<Rightarrow> nat \<Rightarrow> nat \<Rightarrow> bool" where
  "fp_lt ew fw a b =
     (case fp_unpack ew fw a of
        FP_NaN \<Rightarrow> False
      | FP_Inf s1 \<Rightarrow>
          (case fp_unpack ew fw b of
             FP_NaN \<Rightarrow> False
           | FP_Inf s2 \<Rightarrow> s1 \<and> \<not> s2
           | FP_Fin s2 m2 q2 \<Rightarrow> s1)
      | FP_Fin s1 m1 q1 \<Rightarrow>
          (case fp_unpack ew fw b of
             FP_NaN \<Rightarrow> False
           | FP_Inf s2 \<Rightarrow> \<not> s2
           | FP_Fin s2 m2 q2 \<Rightarrow>
               fp_int s1 m1 q1 (min q1 q2) < fp_int s2 m2 q2 (min q1 q2)))"

text \<open>The conversion of an integer.\<close>

definition fp_of_int :: "nat \<Rightarrow> nat \<Rightarrow> int \<Rightarrow> nat" where
  "fp_of_int ew fw i = fp_round ew fw (i < 0) (nat \<bar>i\<bar>) 0"

text \<open>The number a pattern stands for, when it is finite.\<close>

definition fp_value :: "fp_class \<Rightarrow> rat option" where
  "fp_value c =
     (case c of
        FP_NaN \<Rightarrow> None
      | FP_Inf s \<Rightarrow> None
      | FP_Fin s m q \<Rightarrow>
          Some ((if s then - of_nat m else of_nat m)
                * (if 0 \<le> q then 2 ^ nat q else 1 / 2 ^ nat (- q))))"

subsection \<open>The two formats of the program\<close>

text \<open>\<^verbatim>\<open>double\<close> is binary64 (11 exponent bits, 52 fraction bits), \<^verbatim>\<open>float\<close> is
  binary32 (8 and 23). \<^verbatim>\<open>int\<close> is a 32-bit two's complement integer.\<close>

type_synonym f64 = "64 word"
type_synonym f32 = "32 word"

definition f64_add :: "f64 \<Rightarrow> f64 \<Rightarrow> f64" where
  "f64_add a b = word_of_nat (fp_add 11 52 (unat a) (unat b))"

definition f64_sub :: "f64 \<Rightarrow> f64 \<Rightarrow> f64" where
  "f64_sub a b = word_of_nat (fp_sub 11 52 (unat a) (unat b))"

definition f64_mul :: "f64 \<Rightarrow> f64 \<Rightarrow> f64" where
  "f64_mul a b = word_of_nat (fp_mul 11 52 (unat a) (unat b))"

definition f64_lt :: "f64 \<Rightarrow> f64 \<Rightarrow> bool" where
  "f64_lt a b = fp_lt 11 52 (unat a) (unat b)"

definition f64_of_int :: "32 word \<Rightarrow> f64" where
  "f64_of_int i = word_of_nat (fp_of_int 11 52 (sint i))"

definition f64_is_nan :: "f64 \<Rightarrow> bool" where
  "f64_is_nan a = (fp_unpack 11 52 (unat a) = FP_NaN)"

definition f64_value :: "f64 \<Rightarrow> rat option" where
  "f64_value a = fp_value (fp_unpack 11 52 (unat a))"

definition f32_add :: "f32 \<Rightarrow> f32 \<Rightarrow> f32" where
  "f32_add a b = word_of_nat (fp_add 8 23 (unat a) (unat b))"

definition f32_of_int :: "32 word \<Rightarrow> f32" where
  "f32_of_int i = word_of_nat (fp_of_int 8 23 (sint i))"

section \<open>The Mandelbrot iteration (sample/mandelbrot.c)\<close>

text \<open>
  \<^verbatim>\<open>unsigned iterate_mandelbrot(double cx, double cy, unsigned maxIters)\<close>: the counter
  and the bound are 32-bit unsigned integers, \<^verbatim>\<open>zx\<close> and \<^verbatim>\<open>zy\<close> start at
  \<^verbatim>\<open>0.0\<close>. The \<^verbatim>\<open>for\<close> loop is the recursion below: its condition
  \<^verbatim>\<open>i < maxIters && (zx * zx + zy * zy) < 4.0\<close>, its body and its \<^verbatim>\<open>i++\<close>.
  In \<^verbatim>\<open>2 * zx * zy\<close> the integer 2 is converted to \<^verbatim>\<open>double\<close> and the product
  associates to the left. \<open>4.0\<close> has the bit pattern \<open>0x4010000000000000\<close>.
\<close>

definition f64_four :: f64 where
  "f64_four = 0x4010000000000000"

function mandelbrot_loop ::
  "f64 \<Rightarrow> f64 \<Rightarrow> 32 word \<Rightarrow> f64 \<Rightarrow> f64 \<Rightarrow> 32 word \<Rightarrow> 32 word" where
  "mandelbrot_loop cx cy maxIters zx zy i =
     (if i < maxIters \<and> f64_lt (f64_add (f64_mul zx zx) (f64_mul zy zy)) f64_four
      then mandelbrot_loop cx cy maxIters
             (f64_add (f64_sub (f64_mul zx zx) (f64_mul zy zy)) cx)
             (f64_add (f64_mul (f64_mul (f64_of_int 2) zx) zy) cy)
             (i + 1)
      else i)"
  by pat_completeness auto
termination
proof (relation "measure (\<lambda>(cx, cy, maxIters, zx, zy, i). unat maxIters - unat i)")
  show "wf (measure (\<lambda>(cx, cy, maxIters, zx, zy, i). unat maxIters - unat i))"
    by simp
next
  fix cx cy :: f64 and maxIters i :: "32 word" and zx zy :: f64
  assume "i < maxIters \<and> f64_lt (f64_add (f64_mul zx zx) (f64_mul zy zy)) f64_four"
  then have lt: "i < maxIters"
    by simp
  then have "unat i < unat maxIters"
    by (simp add: word_less_nat_alt)
  moreover have "unat i + unat (1 :: 32 word) < 2 ^ LENGTH(32)"
    using \<open>unat i < unat maxIters\<close> unsigned_less [of maxIters, where ?'a = nat]
    by simp
  then have "unat (i + 1) = unat i + unat (1 :: 32 word)"
    by (simp only: unat_add_lem)
  ultimately show
    "((cx, cy, maxIters,
       f64_add (f64_sub (f64_mul zx zx) (f64_mul zy zy)) cx,
       f64_add (f64_mul (f64_mul (f64_of_int 2) zx) zy) cy, i + 1),
      (cx, cy, maxIters, zx, zy, i))
     \<in> measure (\<lambda>(cx, cy, maxIters, zx, zy, i). unat maxIters - unat i)"
    by simp
qed

declare mandelbrot_loop.simps [simp del]

definition iterate_mandelbrot :: "f64 \<Rightarrow> f64 \<Rightarrow> 32 word \<Rightarrow> 32 word" where
  "iterate_mandelbrot cx cy maxIters = mandelbrot_loop cx cy maxIters 0 0 0"

section \<open>The typed buffers (sample/memory.c)\<close>

text \<open>
  \<^verbatim>\<open>#define ITEMS (1024 * 1024)\<close> is an \<^verbatim>\<open>int\<close> constant; the six static arrays
  have \<^verbatim>\<open>ITEMS\<close> elements each and are zero at start. The state of the file is the
  record of the six arrays, each a list of its elements' bit patterns. \<^verbatim>\<open>char\<close> is
  8 bits wide, \<^verbatim>\<open>short\<close> 16, \<^verbatim>\<open>int\<close> 32 and \<^verbatim>\<open>long long\<close> 64.
\<close>

definition ITEMS :: "32 word" where
  "ITEMS = 1024 * 1024"

record memory =
  buffer_i8 :: "8 word list"
  buffer_i16 :: "16 word list"
  buffer_i32 :: "32 word list"
  buffer_i64 :: "64 word list"
  buffer_f32 :: "f32 list"
  buffer_f64 :: "f64 list"

definition memory_init :: memory where
  "memory_init =
     \<lparr>buffer_i8 = replicate (unat ITEMS) 0,
      buffer_i16 = replicate (unat ITEMS) 0,
      buffer_i32 = replicate (unat ITEMS) 0,
      buffer_i64 = replicate (unat ITEMS) 0,
      buffer_f32 = replicate (unat ITEMS) 0,
      buffer_f64 = replicate (unat ITEMS) 0\<rparr>"

text \<open>The arrays never change their size: a state of the program has six lists of
  \<^verbatim>\<open>ITEMS\<close> elements.\<close>

definition memory_ok :: "memory \<Rightarrow> bool" where
  "memory_ok s =
     (length (buffer_i8 s) = unat ITEMS \<and> length (buffer_i16 s) = unat ITEMS
      \<and> length (buffer_i32 s) = unat ITEMS \<and> length (buffer_i64 s) = unat ITEMS
      \<and> length (buffer_f32 s) = unat ITEMS \<and> length (buffer_f64 s) = unat ITEMS)"

text \<open>
  Each routine is the loop \<^verbatim>\<open>for (int i = 0; i < ITEMS; i++) buffer[i] += i;\<close> on
  its own array. The counter is a signed 32-bit integer and the comparison is signed. The
  compound assignment computes in the type the usual arithmetic conversions give and
  converts the result back to the element type:
  \<^item> \<^verbatim>\<open>char\<close> and \<^verbatim>\<open>short\<close> elements are promoted to \<^verbatim>\<open>int\<close> (sign-extended;
    \<^verbatim>\<open>char\<close> is signed on the target), added to \<^verbatim>\<open>i\<close>, and the sum is truncated
    to the element's width;
  \<^item> an \<^verbatim>\<open>int\<close> element is added to \<^verbatim>\<open>i\<close> in 32 bits, wrapping as the target
    does;
  \<^item> for a \<^verbatim>\<open>long long\<close> element \<^verbatim>\<open>i\<close> is sign-extended to 64 bits;
  \<^item> for a \<^verbatim>\<open>float\<close> or \<^verbatim>\<open>double\<close> element \<^verbatim>\<open>i\<close> is converted to the
    element's format and the sum is rounded in that format.
  Inside the loop \<open>0 \<le> i < ITEMS\<close>, so the index is within a list of \<^verbatim>\<open>ITEMS\<close>
  elements.
\<close>

function process_i8_loop :: "32 word \<Rightarrow> 8 word list \<Rightarrow> 8 word list" where
  "process_i8_loop i buf =
     (if i <s ITEMS
      then process_i8_loop (i + 1)
             (buf[nat (sint i) := ucast ((scast (buf ! nat (sint i)) :: 32 word) + i)])
      else buf)"
  by pat_completeness auto
termination
proof (relation "measure (\<lambda>(i, buf). nat (sint ITEMS - sint i))")
  show "wf (measure (\<lambda>(i :: 32 word, buf :: 8 word list). nat (sint ITEMS - sint i)))"
    by simp
next
  fix i :: "32 word" and buf :: "8 word list"
  assume "i <s ITEMS"
  then have lt: "sint i < sint ITEMS" and small: "sint i < 1048576"
    by (simp_all add: word_sless_alt ITEMS_def)
  have "sint (i + 1) = signed_take_bit 31 (sint i + 1)"
    by (simp add: sint_word_ariths)
  also have "\<dots> = sint i + 1"
    using small sint_ge [of i] by (intro signed_take_bit_int_eq_self) simp_all
  finally show
    "((i + 1, buf[nat (sint i) := ucast ((scast (buf ! nat (sint i)) :: 32 word) + i)]),
      (i, buf))
     \<in> measure (\<lambda>(i, buf). nat (sint ITEMS - sint i))"
    using lt by simp
qed

declare process_i8_loop.simps [simp del]

definition process_i8 :: "memory \<Rightarrow> memory" where
  "process_i8 s = s\<lparr>buffer_i8 := process_i8_loop 0 (buffer_i8 s)\<rparr>"

function process_i16_loop :: "32 word \<Rightarrow> 16 word list \<Rightarrow> 16 word list" where
  "process_i16_loop i buf =
     (if i <s ITEMS
      then process_i16_loop (i + 1)
             (buf[nat (sint i) := ucast ((scast (buf ! nat (sint i)) :: 32 word) + i)])
      else buf)"
  by pat_completeness auto
termination
proof (relation "measure (\<lambda>(i, buf). nat (sint ITEMS - sint i))")
  show "wf (measure (\<lambda>(i :: 32 word, buf :: 16 word list). nat (sint ITEMS - sint i)))"
    by simp
next
  fix i :: "32 word" and buf :: "16 word list"
  assume "i <s ITEMS"
  then have lt: "sint i < sint ITEMS" and small: "sint i < 1048576"
    by (simp_all add: word_sless_alt ITEMS_def)
  have "sint (i + 1) = signed_take_bit 31 (sint i + 1)"
    by (simp add: sint_word_ariths)
  also have "\<dots> = sint i + 1"
    using small sint_ge [of i] by (intro signed_take_bit_int_eq_self) simp_all
  finally show
    "((i + 1, buf[nat (sint i) := ucast ((scast (buf ! nat (sint i)) :: 32 word) + i)]),
      (i, buf))
     \<in> measure (\<lambda>(i, buf). nat (sint ITEMS - sint i))"
    using lt by simp
qed

declare process_i16_loop.simps [simp del]

definition process_i16 :: "memory \<Rightarrow> memory" where
  "process_i16 s = s\<lparr>buffer_i16 := process_i16_loop 0 (buffer_i16 s)\<rparr>"

function process_i32_loop :: "32 word \<Rightarrow> 32 word list \<Rightarrow> 32 word list" where
  "process_i32_loop i buf =
     (if i <s ITEMS
      then process_i32_loop (i + 1)
             (buf[nat (sint i) := buf ! nat (sint i) + i])
      else buf)"
  by pat_completeness auto
termination
proof (relation "measure (\<lambda>(i, buf). nat (sint ITEMS - sint i))")
  show "wf (measure (\<lambda>(i :: 32 word, buf :: 32 word list). nat (sint ITEMS - sint i)))"
    by simp
next
  fix i :: "32 word" and buf :: "32 word list"
  assume "i <s ITEMS"
  then have lt: "sint i < sint ITEMS" and small: "sint i < 1048576"
    by (simp_all add: word_sless_alt ITEMS_def)
  have "sint (i + 1) = signed_take_bit 31 (sint i + 1)"
    by (simp add: sint_word_ariths)
  also have "\<dots> = sint i + 1"
    using small sint_ge [of i] by (intro signed_take_bit_int_eq_self) simp_all
  finally show
    "((i + 1, buf[nat (sint i) := buf ! nat (sint i) + i]),
      (i, buf))
     \<in> measure (\<lambda>(i, buf). nat (sint ITEMS - sint i))"
    using lt by simp
qed

declare process_i32_loop.simps [simp del]

definition process_i32 :: "memory \<Rightarrow> memory" where
  "process_i32 s = s\<lparr>buffer_i32 := process_i32_loop 0 (buffer_i32 s)\<rparr>"

function process_i64_loop :: "32 word \<Rightarrow> 64 word list \<Rightarrow> 64 word list" where
  "process_i64_loop i buf =
     (if i <s ITEMS
      then process_i64_loop (i + 1)
             (buf[nat (sint i) := buf ! nat (sint i) + scast i])
      else buf)"
  by pat_completeness auto
termination
proof (relation "measure (\<lambda>(i, buf). nat (sint ITEMS - sint i))")
  show "wf (measure (\<lambda>(i :: 32 word, buf :: 64 word list). nat (sint ITEMS - sint i)))"
    by simp
next
  fix i :: "32 word" and buf :: "64 word list"
  assume "i <s ITEMS"
  then have lt: "sint i < sint ITEMS" and small: "sint i < 1048576"
    by (simp_all add: word_sless_alt ITEMS_def)
  have "sint (i + 1) = signed_take_bit 31 (sint i + 1)"
    by (simp add: sint_word_ariths)
  also have "\<dots> = sint i + 1"
    using small sint_ge [of i] by (intro signed_take_bit_int_eq_self) simp_all
  finally show
    "((i + 1, buf[nat (sint i) := buf ! nat (sint i) + scast i]),
      (i, buf))
     \<in> measure (\<lambda>(i, buf). nat (sint ITEMS - sint i))"
    using lt by simp
qed

declare process_i64_loop.simps [simp del]

definition process_i64 :: "memory \<Rightarrow> memory" where
  "process_i64 s = s\<lparr>buffer_i64 := process_i64_loop 0 (buffer_i64 s)\<rparr>"

function process_f32_loop :: "32 word \<Rightarrow> f32 list \<Rightarrow> f32 list" where
  "process_f32_loop i buf =
     (if i <s ITEMS
      then process_f32_loop (i + 1)
             (buf[nat (sint i) := f32_add (buf ! nat (sint i)) (f32_of_int i)])
      else buf)"
  by pat_completeness auto
termination
proof (relation "measure (\<lambda>(i, buf). nat (sint ITEMS - sint i))")
  show "wf (measure (\<lambda>(i :: 32 word, buf :: f32 list). nat (sint ITEMS - sint i)))"
    by simp
next
  fix i :: "32 word" and buf :: "f32 list"
  assume "i <s ITEMS"
  then have lt: "sint i < sint ITEMS" and small: "sint i < 1048576"
    by (simp_all add: word_sless_alt ITEMS_def)
  have "sint (i + 1) = signed_take_bit 31 (sint i + 1)"
    by (simp add: sint_word_ariths)
  also have "\<dots> = sint i + 1"
    using small sint_ge [of i] by (intro signed_take_bit_int_eq_self) simp_all
  finally show
    "((i + 1, buf[nat (sint i) := f32_add (buf ! nat (sint i)) (f32_of_int i)]),
      (i, buf))
     \<in> measure (\<lambda>(i, buf). nat (sint ITEMS - sint i))"
    using lt by simp
qed

declare process_f32_loop.simps [simp del]

definition process_f32 :: "memory \<Rightarrow> memory" where
  "process_f32 s = s\<lparr>buffer_f32 := process_f32_loop 0 (buffer_f32 s)\<rparr>"

function process_f64_loop :: "32 word \<Rightarrow> f64 list \<Rightarrow> f64 list" where
  "process_f64_loop i buf =
     (if i <s ITEMS
      then process_f64_loop (i + 1)
             (buf[nat (sint i) := f64_add (buf ! nat (sint i)) (f64_of_int i)])
      else buf)"
  by pat_completeness auto
termination
proof (relation "measure (\<lambda>(i, buf). nat (sint ITEMS - sint i))")
  show "wf (measure (\<lambda>(i :: 32 word, buf :: f64 list). nat (sint ITEMS - sint i)))"
    by simp
next
  fix i :: "32 word" and buf :: "f64 list"
  assume "i <s ITEMS"
  then have lt: "sint i < sint ITEMS" and small: "sint i < 1048576"
    by (simp_all add: word_sless_alt ITEMS_def)
  have "sint (i + 1) = signed_take_bit 31 (sint i + 1)"
    by (simp add: sint_word_ariths)
  also have "\<dots> = sint i + 1"
    using small sint_ge [of i] by (intro signed_take_bit_int_eq_self) simp_all
  finally show
    "((i + 1, buf[nat (sint i) := f64_add (buf ! nat (sint i)) (f64_of_int i)]),
      (i, buf))
     \<in> measure (\<lambda>(i, buf). nat (sint ITEMS - sint i))"
    using lt by simp
qed

declare process_f64_loop.simps [simp del]

definition process_f64 :: "memory \<Rightarrow> memory" where
  "process_f64 s = s\<lparr>buffer_f64 := process_f64_loop 0 (buffer_f64 s)\<rparr>"

text \<open>\<^verbatim>\<open>process_all\<close> calls the six routines one after the other.\<close>

definition process_all :: "memory \<Rightarrow> memory" where
  "process_all s =
     process_f64 (process_f32 (process_i64 (process_i32 (process_i16 (process_i8 s)))))"

subsection \<open>The common shape of the six loops\<close>

text \<open>
  The six loops differ only in the type of the elements and in the addition. The loop
  below takes the addition as a parameter; it is not a function of the program and is
  used only to reason about the six loops above at once (each is proved equal to it).
  \<open>process_each_in_order\<close> is the specification's description of
  \<^verbatim>\<open>process_all\<close>: the six routines called one by one in the listed order.
\<close>

function scan_loop :: "(32 word \<Rightarrow> 'a \<Rightarrow> 'a) \<Rightarrow> 32 word \<Rightarrow> 'a list \<Rightarrow> 'a list" where
  "scan_loop add i buf =
     (if i <s ITEMS
      then scan_loop add (i + 1) (buf[nat (sint i) := add i (buf ! nat (sint i))])
      else buf)"
  by pat_completeness auto
termination
proof (relation "measure (\<lambda>(add, i, buf). nat (sint ITEMS - sint i))")
  show "wf (measure (\<lambda>(add :: 32 word \<Rightarrow> 'a \<Rightarrow> 'a, i :: 32 word, buf :: 'a list).
      nat (sint ITEMS - sint i)))"
    by simp
next
  fix add :: "32 word \<Rightarrow> 'a \<Rightarrow> 'a" and i :: "32 word" and buf :: "'a list"
  assume "i <s ITEMS"
  then have lt: "sint i < sint ITEMS" and small: "sint i < 1048576"
    by (simp_all add: word_sless_alt ITEMS_def)
  have "sint (i + 1) = signed_take_bit 31 (sint i + 1)"
    by (simp add: sint_word_ariths)
  also have "\<dots> = sint i + 1"
    using small sint_ge [of i] by (intro signed_take_bit_int_eq_self) simp_all
  finally show
    "((add, i + 1, buf[nat (sint i) := add i (buf ! nat (sint i))]), (add, i, buf))
     \<in> measure (\<lambda>(add, i, buf). nat (sint ITEMS - sint i))"
    using lt by simp
qed

declare scan_loop.simps [simp del]

definition process_each_in_order :: "memory \<Rightarrow> memory" where
  "process_each_in_order s =
     fold (\<lambda>routine state. routine state)
       [process_i8, process_i16, process_i32, process_i64, process_f32, process_f64] s"

section \<open>Properties of the light switch\<close>

lemma light_run_append: "light_run (cs @ ds) s = light_run ds (light_run cs s)"
  by (induction cs arbitrary: s) simp_all

lemma last_change_append:
  "last_change (cs @ ds) =
     (case last_change ds of Some d \<Rightarrow> Some d | None \<Rightarrow> last_change cs)"
  by (induction cs) (simp_all split: option.splits)

lemma lit_light_run:
  "lit (light_run cs s) =
     (case last_change cs of
        None \<Rightarrow> lit s
      | Some c \<Rightarrow> (if c = Turn_on then 1 else 0))"
proof (induction cs rule: rev_induct)
  case Nil
  show ?case by simp
next
  case (snoc c cs)
  show ?case
    by (cases c)
      (simp_all add: light_run_append last_change_append snoc.IH
        turn_on_def turn_off_def is_lit_def)
qed

text \<open>
  Claim C10. The state variable \<^verbatim>\<open>lit\<close> is 0 at start and is 0 or 1 after any
  sequence of calls to \<^verbatim>\<open>turn_on\<close>, \<^verbatim>\<open>turn_off\<close> and \<^verbatim>\<open>is_lit\<close>;
  \<^verbatim>\<open>is_lit\<close> leaves every state as it found it and returns the current value of
  \<^verbatim>\<open>lit\<close>, which is 1 when the most recent state-changing call was
  \<^verbatim>\<open>turn_on\<close> and 0 when there was none or it was \<^verbatim>\<open>turn_off\<close>.
\<close>

theorem light_invariant:
  "lit light_init = 0
   \<and> (lit (light_run cs light_init) = 0 \<or> lit (light_run cs light_init) = 1)
   \<and> snd (is_lit s) = s
   \<and> fst (is_lit s) = lit s
   \<and> fst (is_lit (light_run cs light_init)) =
       (if last_change cs = Some Turn_on then 1 else 0)"
proof -
  have run: "lit (light_run cs light_init) =
      (if last_change cs = Some Turn_on then 1 else 0)"
    by (simp add: lit_light_run light_init_def split: option.splits)
  show ?thesis
    by (simp add: run is_lit_def) (simp add: light_init_def)
qed

theorem light_invariant_witness:
  "fst (is_lit (light_run [Turn_on, Is_lit, Turn_off, Turn_on, Is_lit] light_init)) = 1
   \<and> fst (is_lit (light_run [Turn_on, Is_lit, Turn_off, Is_lit] light_init)) = 0
   \<and> snd (is_lit (turn_on light_init)) = turn_on light_init"
proof -
  have a: "fst (is_lit (light_run [Turn_on, Is_lit, Turn_off, Turn_on, Is_lit] light_init)) =
      (if last_change [Turn_on, Is_lit, Turn_off, Turn_on, Is_lit] = Some Turn_on then 1 else 0)"
    and c: "snd (is_lit (turn_on light_init)) = turn_on light_init"
    using light_invariant [of "[Turn_on, Is_lit, Turn_off, Turn_on, Is_lit]" "turn_on light_init"]
    by blast+
  have b: "fst (is_lit (light_run [Turn_on, Is_lit, Turn_off, Is_lit] light_init)) =
      (if last_change [Turn_on, Is_lit, Turn_off, Is_lit] = Some Turn_on then 1 else 0)"
    using light_invariant [of "[Turn_on, Is_lit, Turn_off, Is_lit]" light_init]
    by blast
  have la: "last_change [Turn_on, Is_lit, Turn_off, Turn_on, Is_lit] = Some Turn_on"
    by simp
  have lb: "last_change [Turn_on, Is_lit, Turn_off, Is_lit] = Some Turn_off"
    by simp
  from a b c show ?thesis
    unfolding la lb by simp
qed

section \<open>Properties of the floating-point operations\<close>

subsection \<open>Rounding a number the format holds exactly\<close>

lemma bitlen_eq: "2 ^ k \<le> n \<Longrightarrow> n < 2 ^ Suc k \<Longrightarrow> bitlen n = Suc k"
proof (induction k arbitrary: n)
  case 0
  then have "n = 1"
    by simp
  then show ?case
    by (simp add: bitlen.simps)
next
  case (Suc k)
  have "2 ^ k \<le> n div 2" and "n div 2 < 2 ^ Suc k"
    using Suc.prems by simp_all
  then have "bitlen (n div 2) = Suc k"
    by (rule Suc.IH)
  moreover have "n \<noteq> 0"
    using Suc.prems by auto
  ultimately show ?case
    by (subst bitlen.simps) simp
qed

lemma rne_exact: "0 < j \<Longrightarrow> rne (d * 2 ^ j) j = d"
proof -
  assume "0 < j"
  have "(0 :: nat) < 2 ^ (j - 1)"
    by simp
  then show ?thesis
    unfolding rne_def Let_def by simp
qed

lemma fp_round_exact:
  fixes d m :: nat and q qt :: int
  assumes d: "2 ^ fw \<le> d" "d < 2 ^ (fw + 1)"
    and same: "(qt \<le> q \<and> d = m * 2 ^ nat (q - qt)) \<or> (q < qt \<and> m = d * 2 ^ nat (qt - q))"
    and e: "1 \<le> qt + int (fp_bias ew) + int fw"
      "nat (qt + int (fp_bias ew) + int fw) < 2 ^ ew - 1"
  shows "fp_round ew fw s m q =
    fp_pack ew fw s (nat (qt + int (fp_bias ew) + int fw)) (d - 2 ^ fw)"
proof -
  have d0: "0 < d"
    using d(1) by (metis less_le_trans zero_less_numeral zero_less_power)
  from same have m0: "m \<noteq> 0"
    using d0 by auto
  have len: "int (bitlen m) - 1 + q = int fw + qt"
  proof (cases "qt \<le> q")
    case True
    define j where "j = nat (q - qt)"
    with True same have dm: "d = m * 2 ^ j"
      by auto
    have jfw: "j \<le> fw"
    proof (rule ccontr)
      assume "\<not> j \<le> fw"
      then have "fw + 1 \<le> j"
        by simp
      then have "(2 :: nat) ^ (fw + 1) \<le> 2 ^ j"
        by (rule power_increasing) simp
      also have "\<dots> \<le> m * 2 ^ j"
        using m0 by simp
      finally show False
        using d(2) dm by simp
    qed
    have pw: "(2 :: nat) ^ fw = 2 ^ (fw - j) * 2 ^ j"
      using jfw by (simp flip: power_add)
    have "2 ^ (fw - j) * (2 :: nat) ^ j \<le> m * 2 ^ j"
      using d(1) dm by (simp only: pw)
    then have lo: "2 ^ (fw - j) \<le> m"
      by (simp only: mult_le_cancel2) simp
    have "m * 2 ^ j < 2 * 2 ^ fw"
      using d(2) dm by simp
    then have "m * 2 ^ j < (2 * 2 ^ (fw - j)) * 2 ^ j"
      by (simp only: pw mult.assoc)
    then have "m < 2 * 2 ^ (fw - j)"
      by (simp only: mult_less_cancel2)
    then have hi: "m < 2 ^ Suc (fw - j)"
      by simp
    have "bitlen m = Suc (fw - j)"
      using lo hi by (rule bitlen_eq)
    then show ?thesis
      using jfw True by (simp add: j_def)
  next
    case False
    define j where "j = nat (qt - q)"
    with False same have md: "m = d * 2 ^ j"
      by auto
    have "2 ^ (fw + j) \<le> m"
      using d(1) by (simp add: md power_add)
    moreover have "m < 2 ^ Suc (fw + j)"
      using d(2) by (simp add: md power_add)
    ultimately have "bitlen m = Suc (fw + j)"
      by (rule bitlen_eq)
    then show ?thesis
      using False by (simp add: j_def)
  qed
  have qmin: "fp_qmin ew fw \<le> qt"
    using e(1) by (simp add: fp_qmin_def)
  have t: "(if qt \<le> q then m * 2 ^ nat (q - qt) else rne m (nat (qt - q))) = d"
  proof (cases "qt \<le> q")
    case True
    with same show ?thesis
      by auto
  next
    case False
    with same have "m = d * 2 ^ nat (qt - q)" and "0 < nat (qt - q)"
      by auto
    then show ?thesis
      using False by (simp add: rne_exact)
  qed
  have "d = (d - 2 ^ fw) + 2 ^ fw"
    using d(1) by simp
  then have "d mod 2 ^ fw = (d - 2 ^ fw) mod 2 ^ fw"
    by (metis mod_add_self2)
  also have "\<dots> = d - 2 ^ fw"
    using d(2) by simp
  finally have mod: "d mod 2 ^ fw = d - 2 ^ fw" .
  have maxeq: "max (int fw + qt - int fw) (fp_qmin ew fw) = qt"
    using qmin by simp
  have ne: "d \<noteq> 2 ^ (fw + 1)" and nlt: "\<not> d < 2 ^ fw"
    using d by simp_all
  have big: "\<not> 2 ^ ew - 1 \<le> nat (qt + int (fp_bias ew) + int fw)"
    using e(2) by simp
  show ?thesis
    unfolding fp_round_def Let_def len maxeq t
    by (simp only: m0 ne nlt big mod if_False)
qed

subsection \<open>The fields of a packed number\<close>

lemma fp_pack_fields:
  assumes "e < 2 ^ ew" and "f < 2 ^ fw"
  shows "fp_pack ew fw s e f mod 2 ^ fw = f"
    and "(fp_pack ew fw s e f div 2 ^ fw) mod 2 ^ ew = e"
    and "((fp_pack ew fw s e f div 2 ^ (ew + fw)) mod 2 = 1) = s"
proof -
  define b :: nat where "b = (if s then 1 else 0)"
  have pack: "fp_pack ew fw s e f = (b * 2 ^ ew + e) * 2 ^ fw + f"
    by (simp add: fp_pack_def b_def power_add algebra_simps)
  show "fp_pack ew fw s e f mod 2 ^ fw = f"
    using assms(2) by (simp add: pack)
  have div1: "fp_pack ew fw s e f div 2 ^ fw = b * 2 ^ ew + e"
    using assms(2) by (simp add: pack)
  show "(fp_pack ew fw s e f div 2 ^ fw) mod 2 ^ ew = e"
    using assms(1) by (simp add: div1)
  have split: "(2 :: nat) ^ (ew + fw) = 2 ^ fw * 2 ^ ew"
    by (simp add: power_add)
  have "fp_pack ew fw s e f div 2 ^ (ew + fw) = (fp_pack ew fw s e f div 2 ^ fw) div 2 ^ ew"
    by (simp only: split div_mult2_eq)
  also have "\<dots> = b"
    using assms(1) by (simp add: div1)
  finally show "((fp_pack ew fw s e f div 2 ^ (ew + fw)) mod 2 = 1) = s"
    by (simp add: b_def)
qed

lemma fp_pack_bound:
  assumes "e < 2 ^ ew" and "f < 2 ^ fw"
  shows "fp_pack ew fw s e f < 2 ^ (ew + fw + 1)"
proof -
  have "e * 2 ^ fw + f < (e + 1) * 2 ^ fw"
    using assms(2) by simp
  also have "\<dots> \<le> 2 ^ ew * 2 ^ fw"
    using assms(1) by (intro mult_le_mono1) simp
  finally have "e * 2 ^ fw + f < 2 ^ (ew + fw)"
    by (simp add: power_add)
  then show ?thesis
    by (simp add: fp_pack_def)
qed

lemma fp_pack_unat:
  shows "w = fp_pack ew fw ((w div 2 ^ (ew + fw)) mod 2 = 1)
    ((w div 2 ^ fw) mod 2 ^ ew) (w mod 2 ^ fw) + (w div 2 ^ (ew + fw + 1)) * 2 ^ (ew + fw + 1)"
proof -
  define h where "h = w div 2 ^ (ew + fw)"
  define g where "g = w div 2 ^ fw"
  have split: "(2 :: nat) ^ (ew + fw) = 2 ^ fw * 2 ^ ew"
    by (simp add: power_add)
  have hg: "h = g div 2 ^ ew"
    unfolding h_def g_def by (simp only: split div_mult2_eq)
  have 1: "w = g * 2 ^ fw + w mod 2 ^ fw"
    unfolding g_def by (rule div_mult_mod_eq [symmetric])
  have 2: "g = h * 2 ^ ew + g mod 2 ^ ew"
    unfolding hg by (rule div_mult_mod_eq [symmetric])
  have 3: "h = (h div 2) * 2 + h mod 2"
    by (rule div_mult_mod_eq [symmetric])
  have "(2 :: nat) ^ (ew + fw + 1) = 2 ^ (ew + fw) * 2"
    by simp
  then have 4: "w div 2 ^ (ew + fw + 1) = h div 2"
    unfolding h_def by (simp only: div_mult2_eq)
  have 5: "(if h mod 2 = 1 then 2 ^ (ew + fw) else 0) = (h mod 2) * 2 ^ (ew + fw)"
    by (cases "h mod 2 = 1") auto
  have hx: "h mod 2 * X + h div 2 * (2 * X) = h * X" for X
  proof -
    define a b where "a = h div 2" and "b = h mod 2"
    have "h = a * 2 + b"
      unfolding a_def b_def by (rule 3)
    then show ?thesis
      unfolding a_def [symmetric] b_def [symmetric] by (simp add: algebra_simps)
  qed
  have "fp_pack ew fw ((w div 2 ^ (ew + fw)) mod 2 = 1)
      ((w div 2 ^ fw) mod 2 ^ ew) (w mod 2 ^ fw)
      + (w div 2 ^ (ew + fw + 1)) * 2 ^ (ew + fw + 1) =
    h * 2 ^ (ew + fw) + (g mod 2 ^ ew) * 2 ^ fw + w mod 2 ^ fw"
    unfolding fp_pack_def 4 h_def [symmetric] g_def [symmetric] 5 by (simp add: hx)
  also have "\<dots> = (h * 2 ^ ew + g mod 2 ^ ew) * 2 ^ fw + w mod 2 ^ fw"
    by (simp add: power_add algebra_simps)
  also have "\<dots> = g * 2 ^ fw + w mod 2 ^ fw"
    by (simp only: 2 [symmetric])
  also have "\<dots> = w"
    by (simp only: 1 [symmetric])
  finally show ?thesis
    by (rule sym)
qed

lemma fp_unpack_pack:
  assumes "1 \<le> e" and "e < 2 ^ ew - 1" and "f < 2 ^ fw"
  shows "fp_unpack ew fw (fp_pack ew fw s e f) =
    FP_Fin s (2 ^ fw + f) (int e - int (fp_bias ew) - int fw)"
proof -
  have e: "e < 2 ^ ew"
    using assms(2) by simp
  show ?thesis
    unfolding fp_unpack_def Let_def fp_pack_fields [OF e assms(3)]
    using assms(1,2) by simp
qed

lemma fp_unpack_zero: "0 < ew \<Longrightarrow> fp_unpack ew fw 0 = FP_Fin False 0 (fp_qmin ew fw)"
proof -
  assume "0 < ew"
  then have "(2 :: nat) ^ 1 \<le> 2 ^ ew"
    by (intro power_increasing) simp_all
  then have "(0 :: nat) \<noteq> 2 ^ ew - 1"
    by simp
  then show ?thesis
    unfolding fp_unpack_def Let_def by simp
qed

subsection \<open>Adding zero to a normal number\<close>

lemma fp_round_normal:
  assumes "1 \<le> e" and "e < 2 ^ ew - 1" and "f < 2 ^ fw"
  shows "fp_round ew fw s
      ((2 ^ fw + f) * 2 ^ nat (int e - int (fp_bias ew) - int fw - fp_qmin ew fw))
      (fp_qmin ew fw) =
    fp_pack ew fw s e f"
proof -
  let ?d = "2 ^ fw + f"
  let ?qt = "int e - int (fp_bias ew) - int fw"
  let ?q0 = "fp_qmin ew fw"
  have le: "?q0 \<le> ?qt"
    using assms(1) by (simp add: fp_qmin_def)
  have same: "(?qt \<le> ?q0 \<and> ?d = (?d * 2 ^ nat (?qt - ?q0)) * 2 ^ nat (?q0 - ?qt))
      \<or> (?q0 < ?qt \<and> ?d * 2 ^ nat (?qt - ?q0) = ?d * 2 ^ nat (?qt - ?q0))"
  proof (cases "?q0 < ?qt")
    case True
    then show ?thesis
      by simp
  next
    case False
    with le have "?qt = ?q0"
      by simp
    then show ?thesis
      by simp
  qed
  have e: "?qt + int (fp_bias ew) + int fw = int e"
    by simp
  have "fp_round ew fw s (?d * 2 ^ nat (?qt - ?q0)) ?q0 =
      fp_pack ew fw s (nat (?qt + int (fp_bias ew) + int fw)) (?d - 2 ^ fw)"
  proof (rule fp_round_exact [where d = ?d and qt = ?qt])
    show "2 ^ fw \<le> ?d"
      by simp
    show "?d < 2 ^ (fw + 1)"
      using assms(3) by simp
    show "(?qt \<le> ?q0 \<and> ?d = (?d * 2 ^ nat (?qt - ?q0)) * 2 ^ nat (?q0 - ?qt))
      \<or> (?q0 < ?qt \<and> ?d * 2 ^ nat (?qt - ?q0) = ?d * 2 ^ nat (?qt - ?q0))"
      by (rule same)
    show "1 \<le> ?qt + int (fp_bias ew) + int fw"
      using assms(1) by simp
    show "nat (?qt + int (fp_bias ew) + int fw) < 2 ^ ew - 1"
      using assms(2) by simp
  qed
  then show ?thesis
    by (simp only: e nat_int add_diff_cancel_left')
qed

lemma fp_add_zero:
  assumes "0 < ew" and "1 \<le> e" and "e < 2 ^ ew - 1" and "f < 2 ^ fw"
  shows "fp_add ew fw 0 (fp_pack ew fw s e f) = fp_pack ew fw s e f"
    and "fp_add ew fw (fp_pack ew fw s e f) 0 = fp_pack ew fw s e f"
proof -
  let ?d = "2 ^ fw + f"
  let ?qt = "int e - int (fp_bias ew) - int fw"
  let ?q0 = "fp_qmin ew fw"
  define m where "m = ?d * 2 ^ nat (?qt - ?q0)"
  have m0: "0 < m"
    by (simp add: m_def)
  have le: "?q0 \<le> ?qt"
    using assms(2) by (simp add: fp_qmin_def)
  have zero: "fp_unpack ew fw 0 = FP_Fin False 0 ?q0"
    using assms(1) by (rule fp_unpack_zero)
  have pack: "fp_unpack ew fw (fp_pack ew fw s e f) = FP_Fin s ?d ?qt"
    using assms(2-4) by (rule fp_unpack_pack)
  have round: "fp_round ew fw s m ?q0 = fp_pack ew fw s e f"
    unfolding m_def using assms(2-4) by (rule fp_round_normal)
  have x: "fp_int s ?d ?qt ?q0 = (if s then - int m else int m)"
    by (simp add: fp_int_def m_def)
  have z: "fp_int False 0 ?q0 ?q0 = 0"
    by (simp add: fp_int_def)
  have sign: "((if s then - int m else int m) < 0) = s"
    and abs: "nat \<bar>if s then - int m else int m\<bar> = m"
    and nz: "(if s then - int m else int m) \<noteq> 0"
    using m0 by auto
  show "fp_add ew fw 0 (fp_pack ew fw s e f) = fp_pack ew fw s e f"
    unfolding fp_add_def zero pack fp_class.case Let_def min_absorb1 [OF le] x z
    by (simp only: add_0 sign abs nz if_False round)
  show "fp_add ew fw (fp_pack ew fw s e f) 0 = fp_pack ew fw s e f"
    unfolding fp_add_def zero pack fp_class.case Let_def min_absorb2 [OF le] x z
    by (simp only: add_0_right sign abs nz if_False round)
qed

subsection \<open>Converting an integer the format holds exactly\<close>

lemma bitlen_bounds: "0 < n \<Longrightarrow> 2 ^ (bitlen n - 1) \<le> n \<and> n < 2 ^ bitlen n"
proof (induction n rule: bitlen.induct)
  case (1 n)
  show ?case
  proof (cases "n div 2 = 0")
    case True
    with "1.prems" have "n = 1"
      by arith
    then show ?thesis
      by (simp add: bitlen.simps)
  next
    case False
    then have pos: "0 < n div 2" and n0: "n \<noteq> 0"
      by auto
    then have IH: "2 ^ (bitlen (n div 2) - 1) \<le> n div 2" "n div 2 < 2 ^ bitlen (n div 2)"
      using "1.IH" by simp_all
    have len: "bitlen n = Suc (bitlen (n div 2))"
      using n0 by (subst bitlen.simps) simp
    have pos': "0 < bitlen (n div 2)"
      using pos by (subst bitlen.simps) simp
    have "2 ^ (bitlen n - 1) = 2 * 2 ^ (bitlen (n div 2) - 1)"
      using pos' by (simp add: len flip: power_Suc)
    also have "\<dots> \<le> 2 * (n div 2)"
      using IH(1) by simp
    also have "\<dots> \<le> n"
      by simp
    finally have lo: "2 ^ (bitlen n - 1) \<le> n" .
    have "n < 2 * (n div 2 + 1)"
      by arith
    also have "\<dots> \<le> 2 * 2 ^ bitlen (n div 2)"
      using IH(2) by simp
    finally show ?thesis
      using lo by (simp add: len)
  qed
qed

lemma fp_of_int_exact:
  assumes k: "0 < k" "k < 2 ^ (fw + 1)"
    and e: "1 \<le> bitlen k + fp_bias ew - 1" "bitlen k + fp_bias ew - 1 < 2 ^ ew - 1"
  shows "fp_of_int ew fw (int k) =
    fp_pack ew fw False (bitlen k + fp_bias ew - 1) (k * 2 ^ (fw + 1 - bitlen k) - 2 ^ fw)"
    and "2 ^ fw \<le> k * 2 ^ (fw + 1 - bitlen k)"
    and "k * 2 ^ (fw + 1 - bitlen k) < 2 ^ (fw + 1)"
    and "0 < bitlen k" and "bitlen k \<le> fw + 1"
proof -
  define n where "n = bitlen k"
  have bounds: "2 ^ (n - 1) \<le> k" "k < 2 ^ n"
    using bitlen_bounds [OF k(1)] by (simp_all add: n_def)
  have n0: "0 < n"
    using k(1) unfolding n_def by (subst bitlen.simps) simp
  have nfw: "n \<le> fw + 1"
  proof (rule ccontr)
    assume "\<not> n \<le> fw + 1"
    then have "fw + 1 \<le> n - 1"
      by simp
    then have "(2 :: nat) ^ (fw + 1) \<le> 2 ^ (n - 1)"
      by (rule power_increasing) simp
    with bounds(1) k(2) show False
      by simp
  qed
  define j where "j = fw + 1 - n"
  have pw1: "(2 :: nat) ^ fw = 2 ^ (n - 1) * 2 ^ j"
    using n0 nfw by (simp add: j_def flip: power_add)
  have pw2: "(2 :: nat) ^ (fw + 1) = 2 ^ n * 2 ^ j"
    using nfw by (simp only: j_def flip: power_add) simp
  have lo: "2 ^ fw \<le> k * 2 ^ j"
    unfolding pw1 using bounds(1) by (rule mult_le_mono1)
  have hi: "k * 2 ^ j < 2 ^ (fw + 1)"
    unfolding pw2 using bounds(2) by simp
  let ?qt = "int n - 1 - int fw"
  have jn: "nat (0 - ?qt) = j"
    using nfw by (simp add: j_def)
  have en: "nat (?qt + int (fp_bias ew) + int fw) = n + fp_bias ew - 1"
    using n0 by simp
  have "fp_round ew fw False k 0 =
      fp_pack ew fw False (nat (?qt + int (fp_bias ew) + int fw)) (k * 2 ^ j - 2 ^ fw)"
  proof (rule fp_round_exact [where d = "k * 2 ^ j" and qt = ?qt])
    show "2 ^ fw \<le> k * 2 ^ j"
      by (rule lo)
    show "k * 2 ^ j < 2 ^ (fw + 1)"
      by (rule hi)
    show "(?qt \<le> 0 \<and> k * 2 ^ j = k * 2 ^ nat (0 - ?qt))
        \<or> (0 < ?qt \<and> k = k * 2 ^ j * 2 ^ nat (?qt - 0))"
      using nfw by (simp only: jn) simp
    show "1 \<le> ?qt + int (fp_bias ew) + int fw"
      using e(1) n0 by (simp add: n_def)
    show "nat (?qt + int (fp_bias ew) + int fw) < 2 ^ ew - 1"
      unfolding en using e(2) by (simp add: n_def)
  qed
  then show "fp_of_int ew fw (int k) =
    fp_pack ew fw False (bitlen k + fp_bias ew - 1) (k * 2 ^ (fw + 1 - bitlen k) - 2 ^ fw)"
    unfolding fp_of_int_def en using k(1) by (simp add: n_def j_def)
  show "2 ^ fw \<le> k * 2 ^ (fw + 1 - bitlen k)"
    using lo by (simp add: j_def n_def)
  show "k * 2 ^ (fw + 1 - bitlen k) < 2 ^ (fw + 1)"
    using hi by (simp add: j_def n_def)
  show "0 < bitlen k"
    using n0 by (simp add: n_def)
  show "bitlen k \<le> fw + 1"
    using nfw by (simp add: n_def)
qed

lemma bitlen_le: "k < 2 ^ j \<Longrightarrow> bitlen k \<le> j"
proof (cases "k = 0")
  case True
  then show ?thesis
    by (simp add: bitlen.simps)
next
  case False
  assume "k < 2 ^ j"
  have "2 ^ (bitlen k - 1) \<le> k"
    using False bitlen_bounds [of k] by simp
  then have "(2 :: nat) ^ (bitlen k - 1) < 2 ^ j"
    using \<open>k < 2 ^ j\<close> by (rule le_less_trans)
  then have "bitlen k - 1 < j"
    by simp
  then show ?thesis
    by simp
qed

subsection \<open>Binary64\<close>

lemmas fp_format_defs =
  fp_unpack_def fp_round_def fp_bias_def fp_qmin_def fp_pack_def fp_inf_def fp_nan_def
  fp_zero_def fp_int_def rne_def

lemmas f64_defs =
  f64_add_def f64_sub_def f64_mul_def f64_lt_def f64_of_int_def f64_is_nan_def
  f64_value_def fp_value_def fp_add_def fp_sub_def fp_neg_def fp_mul_def fp_lt_def
  fp_of_int_def

lemma f64_unat_pack:
  fixes a :: f64
  shows "unat a = fp_pack 11 52 ((unat a div 2 ^ (11 + 52)) mod 2 = 1)
    ((unat a div 2 ^ 52) mod 2 ^ 11) (unat a mod 2 ^ 52)"
proof -
  have "unat a < 2 ^ 64"
    using unsigned_less [of a, where ?'a = nat] by simp
  then have "unat a div 2 ^ (11 + 52 + 1) = 0"
    by simp
  then show ?thesis
    using fp_pack_unat [of "unat a" 11 52] by (simp only: mult_zero_left add_0_right)
qed

lemma f64_pack_word:
  assumes "e < 2 ^ 11" and "f < 2 ^ 52"
  shows "unat (word_of_nat (fp_pack 11 52 s e f) :: f64) = fp_pack 11 52 s e f"
proof -
  have "fp_pack 11 52 s e f < 2 ^ (11 + 52 + 1)"
    using assms by (rule fp_pack_bound)
  then show ?thesis
    by (simp add: unat_of_nat)
qed

text \<open>\<open>x + 0 = x\<close> and \<open>0 + x = x\<close> for every normal number \<open>x\<close>.\<close>

lemma f64_add_zero_normal:
  fixes a :: f64
  assumes "1 \<le> (unat a div 2 ^ 52) mod 2 ^ 11" and "(unat a div 2 ^ 52) mod 2 ^ 11 < 2047"
  shows "f64_add 0 a = a" and "f64_add a 0 = a"
proof -
  define s e f where "s = ((unat a div 2 ^ (11 + 52)) mod 2 = 1)"
    and "e = (unat a div 2 ^ 52) mod 2 ^ 11" and "f = unat a mod 2 ^ 52"
  have a: "unat a = fp_pack 11 52 s e f"
    unfolding s_def e_def f_def by (rule f64_unat_pack)
  have e: "1 \<le> e" "e < 2 ^ 11 - 1" and f: "f < 2 ^ 52"
    using assms by (simp_all add: e_def f_def)
  have "fp_add 11 52 0 (fp_pack 11 52 s e f) = fp_pack 11 52 s e f"
    and "fp_add 11 52 (fp_pack 11 52 s e f) 0 = fp_pack 11 52 s e f"
    using e f by (simp_all only: fp_add_zero zero_less_numeral)
  then show "f64_add 0 a = a" and "f64_add a 0 = a"
    unfolding f64_add_def unsigned_0 a [symmetric] by simp_all
qed

subsection \<open>The values the iteration meets at the origin and at 2\<close>

lemma f64_two: "f64_of_int 2 = 0x4000000000000000"
  by (simp add: f64_defs fp_format_defs Let_def bitlen.simps)

lemma f64_zero_ops:
  "f64_mul 0 0 = 0" "f64_sub 0 0 = 0" "f64_add 0 0 = 0"
  "f64_mul 0x4000000000000000 0 = 0"
  by (simp_all add: f64_defs fp_format_defs Let_def)

lemma f64_zero_less_four: "f64_lt 0 f64_four"
  by (simp add: f64_four_def f64_defs fp_format_defs Let_def)

lemma f64_add_zero_two: "f64_add 0 0x4000000000000000 = 0x4000000000000000"
  by (rule f64_add_zero_normal) simp_all

lemma f64_two_squared: "f64_mul 0x4000000000000000 0x4000000000000000 = 0x4010000000000000"
  by (simp add: f64_defs fp_format_defs Let_def bitlen.simps)

lemma f64_add_four_zero: "f64_add 0x4010000000000000 0 = 0x4010000000000000"
  by (rule f64_add_zero_normal) simp_all

lemma f64_four_not_less_four: "\<not> f64_lt 0x4010000000000000 f64_four"
  by (simp add: f64_four_def f64_defs fp_format_defs Let_def)

lemma f64_value_two: "f64_value 0x4000000000000000 = Some 2"
  by (simp add: f64_defs fp_format_defs Let_def)

lemma f64_value_four: "f64_value f64_four = Some 4"
  by (simp add: f64_four_def f64_defs fp_format_defs Let_def)

lemma f64_value_zero: "f64_value 0 = Some 0"
  by (simp add: f64_defs fp_format_defs Let_def)

subsection \<open>NaN operands\<close>

lemma f64_nan_word: "unat (word_of_nat (fp_nan 11 52) :: f64) = fp_nan 11 52"
  by (simp add: fp_nan_def fp_pack_def)

lemma fp_unpack_nan: "fp_unpack 11 52 (fp_nan 11 52) = FP_NaN"
  by (simp add: fp_format_defs Let_def)

lemma f64_is_nan_quiet: "f64_is_nan 0x7FF8000000000000"
  by (simp add: f64_is_nan_def fp_format_defs Let_def)

lemma fp_add_nan:
  "fp_unpack ew fw a = FP_NaN \<or> fp_unpack ew fw b = FP_NaN \<Longrightarrow>
   fp_add ew fw a b = fp_nan ew fw"
  by (auto simp: fp_add_def split: fp_class.splits)

lemma fp_mul_nan:
  "fp_unpack ew fw a = FP_NaN \<or> fp_unpack ew fw b = FP_NaN \<Longrightarrow>
   fp_mul ew fw a b = fp_nan ew fw"
  by (auto simp: fp_mul_def split: fp_class.splits)

lemma fp_lt_nan:
  "fp_unpack ew fw a = FP_NaN \<or> fp_unpack ew fw b = FP_NaN \<Longrightarrow> \<not> fp_lt ew fw a b"
  by (auto simp: fp_lt_def split: fp_class.splits)

lemma f64_add_nan: "f64_is_nan a \<or> f64_is_nan b \<Longrightarrow> f64_is_nan (f64_add a b)"
  unfolding f64_is_nan_def f64_add_def
  by (simp only: fp_add_nan f64_nan_word fp_unpack_nan)

lemma f64_mul_nan: "f64_is_nan a \<or> f64_is_nan b \<Longrightarrow> f64_is_nan (f64_mul a b)"
  unfolding f64_is_nan_def f64_mul_def
  by (simp only: fp_mul_nan f64_nan_word fp_unpack_nan)

lemma f64_lt_nan: "f64_is_nan a \<or> f64_is_nan b \<Longrightarrow> \<not> f64_lt a b"
  unfolding f64_is_nan_def f64_lt_def
  by (rule fp_lt_nan)

subsection \<open>Converting a non-negative \<^verbatim>\<open>int\<close> to \<^verbatim>\<open>double\<close>\<close>

lemma f64_of_int_zero: "f64_of_int 0 = 0"
  by (simp add: f64_defs fp_format_defs)

lemma f64_of_int_pos:
  fixes i :: "32 word"
  assumes "0 < sint i"
  shows "f64_add 0 (f64_of_int i) = f64_of_int i"
    and "f64_value (f64_of_int i) = Some (of_int (sint i))"
proof -
  define k where "k = nat (sint i)"
  define n where "n = bitlen k"
  define d where "d = k * 2 ^ (52 + 1 - n)"
  have k: "0 < k" "int k = sint i"
    using assms by (simp_all add: k_def)
  have "sint i < 2 ^ 31"
    using sint_lt [of i] by simp
  then have k31: "k < 2 ^ 31"
    using assms by (simp add: k_def)
  then have n31: "n \<le> 31"
    unfolding n_def by (rule bitlen_le)
  have k53: "k < 2 ^ (52 + 1)"
    using k31 by simp
  have bias: "fp_bias 11 = 1023"
    by (simp add: fp_bias_def)
  have e1: "1 \<le> bitlen k + fp_bias 11 - 1"
    by (simp add: bias)
  have e2: "bitlen k + fp_bias 11 - 1 < 2 ^ 11 - 1"
    using n31 by (simp add: bias n_def)
  note exact = fp_of_int_exact [OF k(1) k53 e1 e2]
  have n0: "0 < n"
    using exact(4) by (simp add: n_def)
  have dlo: "2 ^ 52 \<le> d" and dhi: "d < 2 ^ 53"
    using exact(2,3) by (simp_all add: d_def n_def)
  define e where "e = n + 1022"
  define f where "f = d - 2 ^ 52"
  have conv: "fp_of_int 11 52 (sint i) = fp_pack 11 52 False e f"
    using exact(1) n0 by (simp add: k(2) bias e_def f_def d_def n_def add.commute)
  have e: "1 \<le> e" "e < 2 ^ 11 - 1" "e < 2 ^ 11"
    using n31 by (simp_all add: e_def)
  have f: "f < 2 ^ 52"
    using dhi dlo by (simp add: f_def)
  have word: "unat (f64_of_int i) = fp_pack 11 52 False e f"
    unfolding f64_of_int_def conv using e(3) f by (rule f64_pack_word)
  have fields: "(unat (f64_of_int i) div 2 ^ 52) mod 2 ^ 11 = e"
    unfolding word using e(3) f by (rule fp_pack_fields)
  show "f64_add 0 (f64_of_int i) = f64_of_int i"
    using e by (intro f64_add_zero_normal) (simp_all only: fields, simp_all)
  have unp: "fp_unpack 11 52 (fp_pack 11 52 False e f) =
      FP_Fin False (2 ^ 52 + f) (int e - int (fp_bias 11) - int 52)"
    using e(1,2) f by (rule fp_unpack_pack)
  have sig: "2 ^ 52 + f = d"
    using dlo by (simp add: f_def)
  define j where "j = 53 - n"
  have j0: "0 < j"
    using n31 by (simp add: j_def)
  have ex: "int e - int (fp_bias 11) - int 52 = - int j"
    using n31 by (simp add: e_def bias j_def)
  have "f64_value (f64_of_int i) = Some (of_nat d * (1 / 2 ^ j))"
    unfolding f64_value_def word unp sig ex fp_value_def using j0 by simp
  also have "of_nat d * (1 / 2 ^ j) = (of_nat k :: rat)"
    by (simp add: d_def j_def)
  also have "(of_nat k :: rat) = of_int (sint i)"
    using k(2) by (metis of_int_of_nat_eq)
  finally show "f64_value (f64_of_int i) = Some (of_int (sint i))" .
qed

lemma f64_of_int_nonneg:
  fixes i :: "32 word"
  assumes "0 \<le> sint i"
  shows "f64_add 0 (f64_of_int i) = f64_of_int i"
    and "f64_value (f64_of_int i) = Some (of_int (sint i))"
proof -
  have both: "f64_add 0 (f64_of_int i) = f64_of_int i
      \<and> f64_value (f64_of_int i) = Some (of_int (sint i))"
  proof (cases "sint i = 0")
    case True
    then have "i = 0"
      by (simp add: signed_eq_0_iff)
    then show ?thesis
      by (simp add: f64_of_int_zero f64_zero_ops f64_value_zero)
  next
    case False
    with assms have "0 < sint i"
      by simp
    then show ?thesis
      by (simp only: f64_of_int_pos)
  qed
  from both show "f64_add 0 (f64_of_int i) = f64_of_int i"
    by simp
  from both show "f64_value (f64_of_int i) = Some (of_int (sint i))"
    by simp
qed

subsection \<open>The model on known values\<close>

text \<open>
  Some results every IEEE 754 implementation gives, computed by the model:
  \<open>0.1 + 0.2 = 0.30000000000000004\<close>, \<open>0.1 * 0.1 = 0.010000000000000002\<close>,
  \<open>1 + 2 ^ (-53) = 1\<close> (a tie, to the even significand), the largest finite number
  doubled is the infinity, half the smallest subnormal number is zero and one and a half
  times it is twice it (ties to even), \<open>1 - 1 = +0\<close>, \<open>(-0) + (-0) = -0\<close>,
  \<open>\<infinity> - \<infinity>\<close> and \<open>\<infinity> * 0\<close> are NaN, \<open>-\<infinity> < 4\<close>; and for binary32
  \<open>(float) 1 = 1\<close>, \<open>(float) 16777217 = 16777216\<close> and \<open>1 + 1 = 2\<close>.
\<close>

lemma f64_known_values:
  "f64_add 0x3FB999999999999A 0x3FC999999999999A = 0x3FD3333333333334"
  "f64_mul 0x3FB999999999999A 0x3FB999999999999A = 0x3F847AE147AE147C"
  "f64_add 0x3FF0000000000000 0x3CA0000000000000 = 0x3FF0000000000000"
  "f64_add 0x7FEFFFFFFFFFFFFF 0x7FEFFFFFFFFFFFFF = 0x7FF0000000000000"
  "f64_mul 0x0000000000000001 0x3FE0000000000000 = 0"
  "f64_mul 0x0000000000000003 0x3FE0000000000000 = 2"
  "f64_sub 0x3FF0000000000000 0x3FF0000000000000 = 0"
  "f64_add 0x8000000000000000 0x8000000000000000 = 0x8000000000000000"
  "f64_sub 0x7FF0000000000000 0x7FF0000000000000 = 0x7FF8000000000000"
  "f64_mul 0x7FF0000000000000 0 = 0x7FF8000000000000"
  "f64_lt 0xFFF0000000000000 f64_four"
  by (simp_all add: f64_four_def f64_defs fp_format_defs Let_def bitlen.simps)

lemma f32_known_values:
  "f32_of_int 1 = 0x3F800000"
  "f32_of_int 16777217 = 0x4B800000"
  "f32_add 0x3F800000 0x3F800000 = 0x40000000"
  by (simp_all add: f32_of_int_def f32_add_def fp_of_int_def fp_add_def fp_format_defs
      Let_def bitlen.simps)

section \<open>Properties of the Mandelbrot iteration\<close>

subsection \<open>The counter\<close>

lemma unat_succ_less:
  fixes i m :: "'a::len word"
  assumes "i < m"
  shows "unat (i + 1) = unat i + 1"
proof -
  have "unat i < unat m"
    using assms by (simp add: word_less_nat_alt)
  moreover have "unat m < 2 ^ LENGTH('a)"
    by (rule unsigned_less)
  ultimately have "Suc (unat i) < 2 ^ LENGTH('a)"
    by (rule less_trans_Suc)
  then have "unat i + unat (1 :: 'a word) < 2 ^ LENGTH('a)"
    by simp
  then have "unat (i + 1) = unat i + unat (1 :: 'a word)"
    by (simp only: unat_add_lem)
  then show ?thesis
    by simp
qed

lemma succ_le_bound:
  fixes i m :: "'a::len word"
  assumes "i < m"
  shows "i + 1 \<le> m" and "i \<le> i + 1"
  using assms unat_succ_less [OF assms]
  by (simp_all add: word_le_nat_alt word_less_nat_alt)

lemma mandelbrot_loop_le:
  "i \<le> maxIters \<Longrightarrow> mandelbrot_loop cx cy maxIters zx zy i \<le> maxIters"
proof (induction cx cy maxIters zx zy i rule: mandelbrot_loop.induct)
  case (1 cx cy maxIters zx zy i)
  show ?case
  proof (cases "i < maxIters
      \<and> f64_lt (f64_add (f64_mul zx zx) (f64_mul zy zy)) f64_four")
    case True
    then have "i + 1 \<le> maxIters"
      by (simp add: succ_le_bound)
    with True "1.IH" show ?thesis
      by (subst mandelbrot_loop.simps) simp
  next
    case False
    with "1.prems" show ?thesis
      by (subst mandelbrot_loop.simps) auto
  qed
qed

lemma mandelbrot_loop_ge:
  "i \<le> mandelbrot_loop cx cy maxIters zx zy i"
proof (induction cx cy maxIters zx zy i rule: mandelbrot_loop.induct)
  case (1 cx cy maxIters zx zy i)
  show ?case
  proof (cases "i < maxIters
      \<and> f64_lt (f64_add (f64_mul zx zx) (f64_mul zy zy)) f64_four")
    case True
    then have "i < maxIters"
      by simp
    then have "i \<le> i + 1"
      by (rule succ_le_bound)
    also have "i + 1 \<le> mandelbrot_loop cx cy maxIters
        (f64_add (f64_sub (f64_mul zx zx) (f64_mul zy zy)) cx)
        (f64_add (f64_mul (f64_mul (f64_of_int 2) zx) zy) cy) (i + 1)"
      using True by (rule "1.IH")
    finally show ?thesis
      using True by (subst mandelbrot_loop.simps) simp
  next
    case False
    then show ?thesis
      by (subst mandelbrot_loop.simps) auto
  qed
qed

lemma mandelbrot_loop_min:
  "i \<le> m1 \<Longrightarrow> m1 \<le> m2 \<Longrightarrow>
   mandelbrot_loop cx cy m1 zx zy i = min (mandelbrot_loop cx cy m2 zx zy i) m1"
proof (induction cx cy m2 zx zy i rule: mandelbrot_loop.induct)
  case (1 cx cy m2 zx zy i)
  let ?test = "f64_lt (f64_add (f64_mul zx zx) (f64_mul zy zy)) f64_four"
  show ?case
  proof (cases "i < m1")
    case True
    then have lt2: "i < m2"
      using "1.prems" by simp
    show ?thesis
    proof (cases ?test)
      case test: True
      have "i + 1 \<le> m1"
        using True by (simp add: succ_le_bound)
      with lt2 test "1.prems" have
        "mandelbrot_loop cx cy m1
           (f64_add (f64_sub (f64_mul zx zx) (f64_mul zy zy)) cx)
           (f64_add (f64_mul (f64_mul (f64_of_int 2) zx) zy) cy) (i + 1) =
         min (mandelbrot_loop cx cy m2
           (f64_add (f64_sub (f64_mul zx zx) (f64_mul zy zy)) cx)
           (f64_add (f64_mul (f64_mul (f64_of_int 2) zx) zy) cy) (i + 1)) m1"
        by (intro "1.IH") simp_all
      then show ?thesis
        using True lt2 test
        by (subst mandelbrot_loop.simps, subst (2) mandelbrot_loop.simps) simp
    next
      case False
      then show ?thesis
        using True
        by (subst mandelbrot_loop.simps, subst (2) mandelbrot_loop.simps) simp
    qed
  next
    case False
    then have eq: "i = m1"
      using "1.prems" by simp
    have "mandelbrot_loop cx cy m1 zx zy i = m1"
      using eq by (subst mandelbrot_loop.simps) simp
    moreover have "m1 \<le> mandelbrot_loop cx cy m2 zx zy i"
      using mandelbrot_loop_ge [of i cx cy m2 zx zy] eq by simp
    ultimately show ?thesis
      by (simp add: min_def)
  qed
qed

subsection \<open>The orbits of the origin, of 2 and of a NaN\<close>

lemma mandelbrot_loop_origin:
  "f64_add 0 cx = 0 \<Longrightarrow> f64_add 0 cy = 0 \<Longrightarrow> zx = 0 \<Longrightarrow> zy = 0 \<Longrightarrow>
   i \<le> maxIters \<Longrightarrow> mandelbrot_loop cx cy maxIters zx zy i = maxIters"
proof (induction cx cy maxIters zx zy i rule: mandelbrot_loop.induct)
  case (1 cx cy maxIters zx zy i)
  have test: "f64_lt (f64_add (f64_mul zx zx) (f64_mul zy zy)) f64_four"
    using "1.prems" by (simp add: f64_zero_ops f64_zero_less_four)
  have zx': "f64_add (f64_sub (f64_mul zx zx) (f64_mul zy zy)) cx = 0"
    using "1.prems" by (simp add: f64_zero_ops)
  have zy': "f64_add (f64_mul (f64_mul (f64_of_int 2) zx) zy) cy = 0"
    using "1.prems" by (simp add: f64_zero_ops f64_two)
  show ?case
  proof (cases "i < maxIters")
    case True
    then have "i + 1 \<le> maxIters"
      by (rule succ_le_bound)
    with True test "1.prems"(1,2) zx' zy'
    have "mandelbrot_loop cx cy maxIters
        (f64_add (f64_sub (f64_mul zx zx) (f64_mul zy zy)) cx)
        (f64_add (f64_mul (f64_mul (f64_of_int 2) zx) zy) cy) (i + 1) = maxIters"
      by (intro "1.IH") simp_all
    with True test show ?thesis
      by (subst mandelbrot_loop.simps) simp
  next
    case False
    with "1.prems" have "i = maxIters"
      by simp
    then show ?thesis
      by (subst mandelbrot_loop.simps) simp
  qed
qed

text \<open>The sign of a zero coordinate makes no difference: \<open>0.0 + (-0.0)\<close> is
  \<open>0.0\<close>, so the orbit of \<open>-0.0\<close> (bit pattern \<open>0x8000000000000000\<close>) is the
  orbit of \<open>0.0\<close>.\<close>

lemma f64_add_zero_negative_zero: "f64_add 0 0x8000000000000000 = 0"
  by (simp add: f64_defs fp_format_defs Let_def)

lemma iterate_mandelbrot_negative_zero:
  "iterate_mandelbrot 0x8000000000000000 0x8000000000000000 maxIters = maxIters"
  "iterate_mandelbrot 0x8000000000000000 0 maxIters = maxIters"
  "iterate_mandelbrot 0 0x8000000000000000 maxIters = maxIters"
  unfolding iterate_mandelbrot_def
  by (simp_all add: mandelbrot_loop_origin f64_add_zero_negative_zero f64_zero_ops)

lemma mandelbrot_first_step:
  assumes "0 < maxIters"
  shows "mandelbrot_loop cx cy maxIters 0 0 0 =
    mandelbrot_loop cx cy maxIters (f64_add 0 cx) (f64_add 0 cy) 1"
proof -
  have "f64_lt (f64_add (f64_mul 0 0) (f64_mul 0 0)) f64_four"
    by (simp add: f64_zero_ops f64_zero_less_four)
  with assms show ?thesis
    by (subst mandelbrot_loop.simps) (simp add: f64_zero_ops f64_two)
qed

lemma mandelbrot_stop:
  assumes "\<not> f64_lt (f64_add (f64_mul zx zx) (f64_mul zy zy)) f64_four"
  shows "mandelbrot_loop cx cy maxIters zx zy i = i"
  using assms by (subst mandelbrot_loop.simps) simp

lemma mandelbrot_nan_stop:
  assumes "f64_is_nan cx \<or> f64_is_nan cy"
  shows "mandelbrot_loop cx cy maxIters (f64_add 0 cx) (f64_add 0 cy) 1 = 1"
proof -
  let ?zx = "f64_add 0 cx" and ?zy = "f64_add 0 cy"
  have "f64_is_nan ?zx \<or> f64_is_nan ?zy"
    using assms f64_add_nan by blast
  then have "f64_is_nan (f64_mul ?zx ?zx) \<or> f64_is_nan (f64_mul ?zy ?zy)"
    using f64_mul_nan by blast
  then have "f64_is_nan (f64_add (f64_mul ?zx ?zx) (f64_mul ?zy ?zy))"
    by (rule f64_add_nan)
  then have "\<not> f64_lt (f64_add (f64_mul ?zx ?zx) (f64_mul ?zy ?zy)) f64_four"
    using f64_lt_nan by blast
  then show ?thesis
    by (rule mandelbrot_stop)
qed

subsection \<open>The claims about the iteration\<close>

text \<open>
  Claim C3. For every input the value \<^verbatim>\<open>iterate_mandelbrot\<close> returns lies between 0
  and \<^verbatim>\<open>maxIters\<close>, and with \<^verbatim>\<open>maxIters = 0\<close> it returns 0 for every point.
\<close>

theorem iterate_mandelbrot_range:
  "0 \<le> iterate_mandelbrot cx cy maxIters
   \<and> iterate_mandelbrot cx cy maxIters \<le> maxIters
   \<and> iterate_mandelbrot cx cy 0 = 0"
proof -
  have "iterate_mandelbrot cx cy m \<le> m" for m
    unfolding iterate_mandelbrot_def by (rule mandelbrot_loop_le) simp
  moreover from this [of 0] have "iterate_mandelbrot cx cy 0 = 0"
    by simp
  ultimately show ?thesis
    by simp
qed

text \<open>
  Claim C2. For a fixed point the result is non-decreasing in the bound, and for
  \<open>m1 \<le> m2\<close> the result for \<open>m1\<close> is the minimum of the result for \<open>m2\<close> and
  \<open>m1\<close>.
\<close>

theorem iterate_mandelbrot_monotone:
  "m1 \<le> m2 \<Longrightarrow>
   iterate_mandelbrot cx cy m1 \<le> iterate_mandelbrot cx cy m2
   \<and> iterate_mandelbrot cx cy m1 = min (iterate_mandelbrot cx cy m2) m1"
proof -
  assume "m1 \<le> m2"
  then have "iterate_mandelbrot cx cy m1 = min (iterate_mandelbrot cx cy m2) m1"
    unfolding iterate_mandelbrot_def by (intro mandelbrot_loop_min) simp_all
  then show ?thesis
    by simp
qed

theorem iterate_mandelbrot_monotone_witness:
  "(3 :: 32 word) \<le> 7
   \<and> iterate_mandelbrot 0x4000000000000000 0 3 \<le> iterate_mandelbrot 0x4000000000000000 0 7
   \<and> iterate_mandelbrot 0x4000000000000000 0 3 =
       min (iterate_mandelbrot 0x4000000000000000 0 7) 3"
proof -
  have le: "(3 :: 32 word) \<le> 7"
    by simp
  from le iterate_mandelbrot_monotone [OF le, of "0x4000000000000000" 0]
  show ?thesis
    by simp
qed

text \<open>
  Claim C7. At the origin (\<^verbatim>\<open>cx = 0.0\<close>, \<^verbatim>\<open>cy = 0.0\<close>, bit pattern 0) the orbit
  never leaves the origin and the function returns \<^verbatim>\<open>maxIters\<close>, whatever it is.
\<close>

theorem iterate_mandelbrot_origin:
  "f64_value 0 = Some 0 \<and> iterate_mandelbrot 0 0 maxIters = maxIters"
  unfolding iterate_mandelbrot_def
  by (simp add: f64_value_zero mandelbrot_loop_origin f64_zero_ops)

text \<open>
  Claim C8. At \<^verbatim>\<open>cx = 2.0\<close> (bit pattern \<open>0x4000000000000000\<close>), \<^verbatim>\<open>cy = 0.0\<close> the
  function returns 1 for every \<^verbatim>\<open>maxIters\<close> of at least 1: after the first step
  \<open>zx = 2\<close> and \<open>zx * zx + zy * zy = 4\<close>, which is not below 4.
\<close>

theorem iterate_mandelbrot_two:
  "1 \<le> maxIters \<Longrightarrow>
   f64_value 0x4000000000000000 = Some 2
   \<and> iterate_mandelbrot 0x4000000000000000 0 maxIters = 1"
proof -
  assume "1 \<le> maxIters"
  then have pos: "0 < maxIters"
    by (simp add: word_le_nat_alt word_less_nat_alt)
  have "\<not> f64_lt (f64_add (f64_mul 0x4000000000000000 0x4000000000000000) (f64_mul 0 0))
      f64_four"
    by (simp add: f64_two_squared f64_zero_ops f64_add_four_zero f64_four_not_less_four)
  then have "mandelbrot_loop 0x4000000000000000 0 maxIters 0x4000000000000000 0 1 = 1"
    by (rule mandelbrot_stop)
  then have "iterate_mandelbrot 0x4000000000000000 0 maxIters = 1"
    unfolding iterate_mandelbrot_def using mandelbrot_first_step [OF pos]
    by (simp add: f64_add_zero_two f64_zero_ops)
  then show ?thesis
    by (simp add: f64_value_two)
qed

theorem iterate_mandelbrot_two_witness:
  "(1 :: 32 word) \<le> 5 \<and> iterate_mandelbrot 0x4000000000000000 0 5 = 1"
proof -
  have le: "(1 :: 32 word) \<le> 5"
    by simp
  from le iterate_mandelbrot_two [OF le] show ?thesis
    by simp
qed

text \<open>
  Claim C1, as the code has it. The claim says that a NaN coordinate makes the function
  return \<^verbatim>\<open>maxIters\<close>. The loop continues while \<^verbatim>\<open>zx * zx + zy * zy < 4.0\<close>; after
  the first step a NaN coordinate has made \<^verbatim>\<open>zx\<close> or \<^verbatim>\<open>zy\<close> a NaN, the comparison
  is false, and the loop stops. So the function returns 1 when \<^verbatim>\<open>maxIters\<close> is at
  least 1 and 0 when it is 0: the minimum of \<^verbatim>\<open>maxIters\<close> and 1.
\<close>

theorem iterate_mandelbrot_nan_stops:
  "f64_is_nan cx \<or> f64_is_nan cy \<Longrightarrow> iterate_mandelbrot cx cy maxIters = min maxIters 1"
proof (cases "maxIters = 0")
  case True
  then show ?thesis
    unfolding iterate_mandelbrot_def by (subst mandelbrot_loop.simps) simp
next
  case False
  assume nan: "f64_is_nan cx \<or> f64_is_nan cy"
  from False have pos: "0 < maxIters"
    by (simp add: word_greater_zero_iff)
  then have one: "1 \<le> maxIters"
    by (simp add: word_le_nat_alt word_less_nat_alt)
  have "iterate_mandelbrot cx cy maxIters =
      mandelbrot_loop cx cy maxIters (f64_add 0 cx) (f64_add 0 cy) 1"
    unfolding iterate_mandelbrot_def using pos by (rule mandelbrot_first_step)
  also have "\<dots> = 1"
    using nan by (rule mandelbrot_nan_stop)
  finally show ?thesis
    using one by (simp add: min_def)
qed

theorem iterate_mandelbrot_nan_stops_witness:
  "f64_is_nan 0x7FF8000000000000 \<and> iterate_mandelbrot 0x7FF8000000000000 0 100 = 1"
proof -
  have nan: "f64_is_nan 0x7FF8000000000000"
    by (rule f64_is_nan_quiet)
  then have "f64_is_nan 0x7FF8000000000000 \<or> f64_is_nan 0"
    by simp
  from nan iterate_mandelbrot_nan_stops [OF this, of 100] show ?thesis
    by simp
qed

text \<open>The claim as stated fails: with a NaN \<^verbatim>\<open>cx\<close> and \<^verbatim>\<open>maxIters = 2\<close> the
  function returns 1, not 2.\<close>

theorem iterate_mandelbrot_nan_counterexample:
  "f64_is_nan 0x7FF8000000000000
   \<and> iterate_mandelbrot 0x7FF8000000000000 0 2 = 1
   \<and> iterate_mandelbrot 0x7FF8000000000000 0 2 \<noteq> 2"
proof -
  have nan: "f64_is_nan 0x7FF8000000000000"
    by (rule f64_is_nan_quiet)
  have "iterate_mandelbrot 0x7FF8000000000000 0 2 =
      mandelbrot_loop 0x7FF8000000000000 0 2 (f64_add 0 0x7FF8000000000000) (f64_add 0 0) 1"
    unfolding iterate_mandelbrot_def by (rule mandelbrot_first_step) simp
  also have "\<dots> = 1"
    using nan by (intro mandelbrot_nan_stop) simp
  finally show ?thesis
    using nan by simp
qed

section \<open>Properties of the typed buffers\<close>

subsection \<open>The loop counter\<close>

lemma unat_ITEMS: "unat ITEMS = 1048576"
  by (simp add: ITEMS_def)

lemma sint_ITEMS: "sint ITEMS = 1048576"
  by (simp add: ITEMS_def)

lemma sint_succ_ITEMS:
  assumes "i <s ITEMS"
  shows "sint (i + 1) = sint i + 1"
proof -
  have small: "sint i < 1048576"
    using assms by (simp add: word_sless_alt sint_ITEMS)
  have "sint (i + 1) = signed_take_bit 31 (sint i + 1)"
    by (simp add: sint_word_ariths)
  also have "\<dots> = sint i + 1"
    using small sint_ge [of i] by (intro signed_take_bit_int_eq_self) simp_all
  finally show ?thesis .
qed

lemma sint_of_nat_index:
  assumes "k < unat ITEMS"
  shows "sint (word_of_nat k :: 32 word) = int k"
proof -
  have "k < 2 ^ 31"
    using assms by (simp add: unat_ITEMS)
  then have "signed_take_bit 31 (int k) = int k"
    by (intro signed_take_bit_int_eq_self) simp_all
  then show ?thesis
    by (simp add: signed_of_nat)
qed

lemma word_of_index:
  fixes i :: "32 word"
  assumes "0 \<le> sint i"
  shows "word_of_nat (nat (sint i)) = i"
  using assms by simp

subsection \<open>What a loop leaves in its array\<close>

lemma scan_loop_length: "length (scan_loop add i buf) = length buf"
proof (induction add i buf rule: scan_loop.induct)
  case (1 add i buf)
  show ?case
  proof (cases "i <s ITEMS")
    case True
    with "1.IH" show ?thesis
      by (subst scan_loop.simps) simp
  next
    case False
    then show ?thesis
      by (subst scan_loop.simps) simp
  qed
qed

lemma scan_loop_nth:
  "0 \<le> sint i \<Longrightarrow> k < length buf \<Longrightarrow>
   scan_loop add i buf ! k =
     (if nat (sint i) \<le> k \<and> k < unat ITEMS then add (word_of_nat k) (buf ! k) else buf ! k)"
proof (induction add i buf rule: scan_loop.induct)
  case (1 add i buf)
  let ?n = "nat (sint i)"
  show ?case
  proof (cases "i <s ITEMS")
    case True
    let ?buf = "buf[?n := add i (buf ! ?n)]"
    have succ: "sint (i + 1) = sint i + 1"
      using True by (rule sint_succ_ITEMS)
    have n: "?n < unat ITEMS"
      using True "1.prems"(1) by (simp add: word_sless_alt sint_ITEMS unat_ITEMS)
    have i: "word_of_nat ?n = i"
      using "1.prems"(1) by simp
    have "scan_loop add (i + 1) ?buf ! k =
        (if nat (sint (i + 1)) \<le> k \<and> k < unat ITEMS
         then add (word_of_nat k) (?buf ! k) else ?buf ! k)"
      using True "1.prems" by (intro "1.IH") (simp_all add: succ)
    moreover have "nat (sint (i + 1)) = Suc ?n"
      using "1.prems"(1) by (simp add: succ)
    ultimately have step: "scan_loop add i buf ! k =
        (if Suc ?n \<le> k \<and> k < unat ITEMS
         then add (word_of_nat k) (?buf ! k) else ?buf ! k)"
      using True by (subst scan_loop.simps) simp
    show ?thesis
    proof (cases "k = ?n")
      case same: True
      then show ?thesis
        using step n i "1.prems"(2) by simp
    next
      case False
      then show ?thesis
        using step by auto
    qed
  next
    case False
    then have "unat ITEMS \<le> ?n"
      using "1.prems"(1) by (simp add: word_sless_alt sint_ITEMS unat_ITEMS)
    with False show ?thesis
      by (subst scan_loop.simps) auto
  qed
qed

lemma scan_loop_from_zero:
  assumes "k < length buf"
  shows "scan_loop add 0 buf ! k =
    (if k < unat ITEMS then add (word_of_nat k) (buf ! k) else buf ! k)"
  using scan_loop_nth [of 0 k buf add] assms by simp

lemma process_i8_loop_scan:
  "process_i8_loop i buf = scan_loop (\<lambda>i b. ucast ((scast b :: 32 word) + i)) i buf"
  by (induction i buf rule: process_i8_loop.induct)
    (subst process_i8_loop.simps, subst scan_loop.simps, simp)

lemma process_i16_loop_scan:
  "process_i16_loop i buf = scan_loop (\<lambda>i b. ucast ((scast b :: 32 word) + i)) i buf"
  by (induction i buf rule: process_i16_loop.induct)
    (subst process_i16_loop.simps, subst scan_loop.simps, simp)

lemma process_i32_loop_scan:
  "process_i32_loop i buf = scan_loop (\<lambda>i b. b + i) i buf"
  by (induction i buf rule: process_i32_loop.induct)
    (subst process_i32_loop.simps, subst scan_loop.simps, simp)

lemma process_i64_loop_scan:
  "process_i64_loop i buf = scan_loop (\<lambda>i b. b + scast i) i buf"
  by (induction i buf rule: process_i64_loop.induct)
    (subst process_i64_loop.simps, subst scan_loop.simps, simp)

lemma process_f32_loop_scan:
  "process_f32_loop i buf = scan_loop (\<lambda>i b. f32_add b (f32_of_int i)) i buf"
  by (induction i buf rule: process_f32_loop.induct)
    (subst process_f32_loop.simps, subst scan_loop.simps, simp)

lemma process_f64_loop_scan:
  "process_f64_loop i buf = scan_loop (\<lambda>i b. f64_add b (f64_of_int i)) i buf"
  by (induction i buf rule: process_f64_loop.induct)
    (subst process_f64_loop.simps, subst scan_loop.simps, simp)

lemmas process_loop_scan =
  process_i8_loop_scan process_i16_loop_scan process_i32_loop_scan
  process_i64_loop_scan process_f32_loop_scan process_f64_loop_scan

lemmas process_defs =
  process_i8_def process_i16_def process_i32_def process_i64_def process_f32_def
  process_f64_def

subsection \<open>Narrowing the sum to the element's width\<close>

lemma take_bit_add_narrow:
  fixes x y :: int
  assumes "m \<le> n"
  shows "take_bit m (take_bit n x + take_bit n y) = take_bit m (x + y)"
proof -
  have "take_bit m (take_bit n x + take_bit n y) =
      take_bit m (take_bit m (take_bit n x) + take_bit m (take_bit n y))"
    by (simp only: take_bit_add)
  also have "\<dots> = take_bit m (take_bit m x + take_bit m y)"
    using assms by (simp only: take_bit_take_bit min_absorb1)
  also have "\<dots> = take_bit m (x + y)"
    by (simp only: take_bit_add)
  finally show ?thesis .
qed

lemma narrow_sum_i8:
  fixes b :: "8 word" and i :: "32 word"
  shows "(ucast ((scast b :: 32 word) + i) :: 8 word) = b + ucast i"
proof -
  have "(ucast (x + y :: 32 word) :: 8 word) = ucast x + ucast y" for x y
    by transfer (simp add: take_bit_add_narrow)
  moreover have "(ucast (scast b :: 32 word) :: 8 word) = b"
    by (rule bit_word_eqI) (auto simp add: bit_ucast_iff bit_word_scast_iff)
  ultimately show ?thesis
    by simp
qed

lemma narrow_index_i8: "(ucast (word_of_nat k :: 32 word) :: 8 word) = word_of_nat k"
  by transfer simp

subsection \<open>The claims about the buffers\<close>

lemma buffer_i8_once:
  assumes "length (buffer_i8 s) = unat ITEMS" and "k < unat ITEMS"
  shows "buffer_i8 (process_i8 s) ! k = buffer_i8 s ! k + word_of_nat k"
  using assms
  by (simp add: process_i8_def process_i8_loop_scan scan_loop_from_zero
      narrow_sum_i8 narrow_index_i8)

lemma buffer_i8_length: "length (buffer_i8 (process_i8 s)) = length (buffer_i8 s)"
  by (simp add: process_i8_def process_i8_loop_scan scan_loop_length)

text \<open>
  Claim C4. From the zero-initialised array of 1,048,576 8-bit elements, one call of
  \<^verbatim>\<open>process_i8\<close> leaves in element \<open>k\<close> the 8-bit value of \<open>k\<close> (unsigned reading
  \<open>k mod 256\<close>), and a second call leaves the 8-bit value of \<open>2 * k\<close> (unsigned reading
  \<open>(2 * k) mod 256\<close>).
\<close>

theorem process_i8_twice:
  "k < 1048576 \<Longrightarrow>
   length (buffer_i8 memory_init) = 1048576
   \<and> buffer_i8 memory_init ! k = 0
   \<and> buffer_i8 (process_i8 memory_init) ! k = word_of_nat k
   \<and> unat (buffer_i8 (process_i8 memory_init) ! k) = k mod 256
   \<and> buffer_i8 (process_i8 (process_i8 memory_init)) ! k = word_of_nat (2 * k)
   \<and> unat (buffer_i8 (process_i8 (process_i8 memory_init)) ! k) = (2 * k) mod 256"
proof -
  assume "k < 1048576"
  then have k: "k < unat ITEMS"
    by (simp add: unat_ITEMS)
  have len0: "length (buffer_i8 memory_init) = unat ITEMS"
    by (simp add: memory_init_def)
  have zero: "buffer_i8 memory_init ! k = 0"
    using k by (simp add: memory_init_def)
  have once: "buffer_i8 (process_i8 memory_init) ! k = word_of_nat k"
    using buffer_i8_once [OF len0 k] by (simp add: zero)
  have len1: "length (buffer_i8 (process_i8 memory_init)) = unat ITEMS"
    by (simp only: buffer_i8_length len0)
  have twice: "buffer_i8 (process_i8 (process_i8 memory_init)) ! k = word_of_nat (2 * k)"
    using buffer_i8_once [OF len1 k] by (simp add: once)
  have "unat (word_of_nat n :: 8 word) = n mod 256" for n
    by (simp add: unat_of_nat)
  then show ?thesis
    using len0 zero by (simp only: once twice unat_ITEMS)
qed

theorem process_i8_twice_witness:
  "(300 :: nat) < 1048576
   \<and> buffer_i8 (process_i8 memory_init) ! 300 = 44
   \<and> buffer_i8 (process_i8 (process_i8 memory_init)) ! 300 = 88"
proof -
  have lt: "(300 :: nat) < 1048576"
    by simp
  from lt process_i8_twice [OF lt] show ?thesis
    by simp
qed

text \<open>
  Claim C9. From the zero-initialised array of 1,048,576 \<^verbatim>\<open>double\<close> elements, one call
  of \<^verbatim>\<open>process_f64\<close> leaves in element \<open>k\<close> the conversion of \<open>k\<close> to
  \<^verbatim>\<open>double\<close>, and that number is \<open>k\<close> itself: nothing is rounded.
\<close>

theorem process_f64_exact:
  "k < 1048576 \<Longrightarrow>
   length (buffer_f64 memory_init) = 1048576
   \<and> buffer_f64 memory_init ! k = 0
   \<and> buffer_f64 (process_f64 memory_init) ! k = f64_of_int (word_of_nat k)
   \<and> f64_value (buffer_f64 (process_f64 memory_init) ! k) = Some (of_nat k)"
proof -
  assume "k < 1048576"
  then have k: "k < unat ITEMS"
    by (simp add: unat_ITEMS)
  have len0: "length (buffer_f64 memory_init) = unat ITEMS"
    by (simp add: memory_init_def)
  have zero: "buffer_f64 memory_init ! k = 0"
    using k by (simp add: memory_init_def)
  have sint: "sint (word_of_nat k :: 32 word) = int k"
    using k by (rule sint_of_nat_index)
  then have nonneg: "0 \<le> sint (word_of_nat k :: 32 word)"
    by simp
  have "buffer_f64 (process_f64 memory_init) ! k = f64_add 0 (f64_of_int (word_of_nat k))"
    using k len0 by (simp add: process_f64_def process_f64_loop_scan scan_loop_from_zero zero)
  then have once: "buffer_f64 (process_f64 memory_init) ! k = f64_of_int (word_of_nat k)"
    by (simp only: f64_of_int_nonneg(1) [OF nonneg])
  have "f64_value (f64_of_int (word_of_nat k)) = Some (of_int (int k))"
    using f64_of_int_nonneg(2) [OF nonneg] by (simp only: sint)
  then have "f64_value (buffer_f64 (process_f64 memory_init) ! k) = Some (of_nat k)"
    by (simp only: once of_int_of_nat_eq)
  then show ?thesis
    using len0 zero once by (simp only: unat_ITEMS)
qed

theorem process_f64_exact_witness:
  "(3 :: nat) < 1048576
   \<and> buffer_f64 (process_f64 memory_init) ! 3 = 0x4008000000000000
   \<and> f64_value (buffer_f64 (process_f64 memory_init) ! 3) = Some 3"
proof -
  have lt: "(3 :: nat) < 1048576"
    by simp
  have three: "f64_of_int 3 = 0x4008000000000000"
    by (simp add: f64_defs fp_format_defs Let_def bitlen.simps)
  have elem: "buffer_f64 (process_f64 memory_init) ! 3 = f64_of_int (word_of_nat 3)"
    and val: "f64_value (buffer_f64 (process_f64 memory_init) ! 3) = Some (of_nat 3)"
    using process_f64_exact [OF lt] by blast+
  have "buffer_f64 (process_f64 memory_init) ! 3 = 0x4008000000000000"
    unfolding elem by (simp add: three)
  with lt val show ?thesis
    by simp
qed

lemma memory_init_ok: "memory_ok memory_init"
  by (simp add: memory_ok_def memory_init_def)

text \<open>
  Claim C6. Each routine changes its own array and nothing else: the state after the call
  is the state before it with that one array replaced, so the other five arrays are as
  they were; the array keeps its length, so six arrays of \<^verbatim>\<open>ITEMS\<close> elements stay
  six arrays of \<^verbatim>\<open>ITEMS\<close> elements. A routine has no result beside the state.
\<close>

theorem process_frame:
  "process_i8 s = s\<lparr>buffer_i8 := buffer_i8 (process_i8 s)\<rparr>
   \<and> process_i16 s = s\<lparr>buffer_i16 := buffer_i16 (process_i16 s)\<rparr>
   \<and> process_i32 s = s\<lparr>buffer_i32 := buffer_i32 (process_i32 s)\<rparr>
   \<and> process_i64 s = s\<lparr>buffer_i64 := buffer_i64 (process_i64 s)\<rparr>
   \<and> process_f32 s = s\<lparr>buffer_f32 := buffer_f32 (process_f32 s)\<rparr>
   \<and> process_f64 s = s\<lparr>buffer_f64 := buffer_f64 (process_f64 s)\<rparr>
   \<and> (buffer_i16 (process_i8 s) = buffer_i16 s \<and> buffer_i32 (process_i8 s) = buffer_i32 s
      \<and> buffer_i64 (process_i8 s) = buffer_i64 s \<and> buffer_f32 (process_i8 s) = buffer_f32 s
      \<and> buffer_f64 (process_i8 s) = buffer_f64 s)
   \<and> (buffer_i8 (process_i16 s) = buffer_i8 s \<and> buffer_i32 (process_i16 s) = buffer_i32 s
      \<and> buffer_i64 (process_i16 s) = buffer_i64 s \<and> buffer_f32 (process_i16 s) = buffer_f32 s
      \<and> buffer_f64 (process_i16 s) = buffer_f64 s)
   \<and> (buffer_i8 (process_i32 s) = buffer_i8 s \<and> buffer_i16 (process_i32 s) = buffer_i16 s
      \<and> buffer_i64 (process_i32 s) = buffer_i64 s \<and> buffer_f32 (process_i32 s) = buffer_f32 s
      \<and> buffer_f64 (process_i32 s) = buffer_f64 s)
   \<and> (buffer_i8 (process_i64 s) = buffer_i8 s \<and> buffer_i16 (process_i64 s) = buffer_i16 s
      \<and> buffer_i32 (process_i64 s) = buffer_i32 s \<and> buffer_f32 (process_i64 s) = buffer_f32 s
      \<and> buffer_f64 (process_i64 s) = buffer_f64 s)
   \<and> (buffer_i8 (process_f32 s) = buffer_i8 s \<and> buffer_i16 (process_f32 s) = buffer_i16 s
      \<and> buffer_i32 (process_f32 s) = buffer_i32 s \<and> buffer_i64 (process_f32 s) = buffer_i64 s
      \<and> buffer_f64 (process_f32 s) = buffer_f64 s)
   \<and> (buffer_i8 (process_f64 s) = buffer_i8 s \<and> buffer_i16 (process_f64 s) = buffer_i16 s
      \<and> buffer_i32 (process_f64 s) = buffer_i32 s \<and> buffer_i64 (process_f64 s) = buffer_i64 s
      \<and> buffer_f32 (process_f64 s) = buffer_f32 s)
   \<and> length (buffer_i8 (process_i8 s)) = length (buffer_i8 s)
   \<and> length (buffer_i16 (process_i16 s)) = length (buffer_i16 s)
   \<and> length (buffer_i32 (process_i32 s)) = length (buffer_i32 s)
   \<and> length (buffer_i64 (process_i64 s)) = length (buffer_i64 s)
   \<and> length (buffer_f32 (process_f32 s)) = length (buffer_f32 s)
   \<and> length (buffer_f64 (process_f64 s)) = length (buffer_f64 s)
   \<and> memory_ok (process_i8 s) = memory_ok s
   \<and> memory_ok (process_i16 s) = memory_ok s
   \<and> memory_ok (process_i32 s) = memory_ok s
   \<and> memory_ok (process_i64 s) = memory_ok s
   \<and> memory_ok (process_f32 s) = memory_ok s
   \<and> memory_ok (process_f64 s) = memory_ok s"
  by (simp add: process_defs process_loop_scan scan_loop_length memory_ok_def)

text \<open>
  Claim C5. \<^verbatim>\<open>process_all\<close> leaves the six arrays in the state that the six routines,
  called one by one in the order 8-bit, 16-bit, 32-bit, 64-bit integer, \<^verbatim>\<open>float\<close>,
  \<^verbatim>\<open>double\<close>, leave them in, from every starting state; each array is then what one
  call of its own routine makes of it, so none is updated twice and none is skipped.
\<close>

theorem process_all_in_order:
  "process_all s = process_each_in_order s
   \<and> process_all memory_init = process_each_in_order memory_init
   \<and> buffer_i8 (process_all s) = buffer_i8 (process_i8 s)
   \<and> buffer_i16 (process_all s) = buffer_i16 (process_i16 s)
   \<and> buffer_i32 (process_all s) = buffer_i32 (process_i32 s)
   \<and> buffer_i64 (process_all s) = buffer_i64 (process_i64 s)
   \<and> buffer_f32 (process_all s) = buffer_f32 (process_f32 s)
   \<and> buffer_f64 (process_all s) = buffer_f64 (process_f64 s)"
proof -
  have seq: "process_all s = process_each_in_order s" for s
    by (simp add: process_all_def process_each_in_order_def)
  have "buffer_i8 (process_all s) = buffer_i8 (process_i8 s)"
    and "buffer_i16 (process_all s) = buffer_i16 (process_i16 s)"
    and "buffer_i32 (process_all s) = buffer_i32 (process_i32 s)"
    and "buffer_i64 (process_all s) = buffer_i64 (process_i64 s)"
    and "buffer_f32 (process_all s) = buffer_f32 (process_f32 s)"
    and "buffer_f64 (process_all s) = buffer_f64 (process_f64 s)"
    by (simp_all add: process_all_def process_defs)
  with seq show ?thesis
    by simp
qed


end
